theory Spec2Isabelle
  imports Complex_Main "HOL-Library.Word" "HOL-Library.Sublist"
begin

section \<open>The hammer: a load generator for a serverless log\<close>

text \<open>
  A shallow embedding of \<^verbatim>\<open>hammer/hammer.go\<close>. Go byte slices and Go strings are
  both byte sequences and are modelled by \<open>char list\<close> (an Isabelle \<open>char\<close> is one byte),
  so the conversion \<^verbatim>\<open>string(l.Data)\<close> is the identity. A run-time panic is a value of
  type \<open>panic\<close>, returned on the left of a sum; so is the fatal error with which the
  runtime ends the process when an allocation finds no memory.
\<close>

type_synonym bytes = "char list"

datatype panic =
    IndexOutOfRange
  | DivideByZero
  | MakechanSizeOutOfRange
  | MakesliceLenOutOfRange
  | OutOfMemory

subsection \<open>roundRobinFetcher\<close>

text \<open>
  A \<^verbatim>\<open>client.Fetcher\<close> is a function of a context and a path that returns bytes and
  an error. It reads the outside world, so the model threads a world \<open>'w\<close> through it; its
  result type \<open>'r\<close> stands for the pair of the byte slice and the error.
\<close>

type_synonym ('c, 'w, 'r) Fetcher = "'c \<Rightarrow> string \<Rightarrow> 'w \<Rightarrow> 'r \<times> 'w"

record ('c, 'w, 'r) roundRobinFetcher =
  idx :: int
  f :: "('c, 'w, 'r) Fetcher list"

text \<open>Go's remainder \<^verbatim>\<open>a % b\<close> truncates towards zero; it panics when \<open>b = 0\<close>.\<close>

definition go_rem :: "int \<Rightarrow> int \<Rightarrow> panic + int" where
  "go_rem a b = (if b = 0 then Inl DivideByZero else Inr (sgn a * (\<bar>a\<bar> mod \<bar>b\<bar>)))"

text \<open>
  \<^verbatim>\<open>next\<close>: the slice is indexed first (line 85), which panics when the index is out of
  range; the index is advanced afterwards (line 86). The mutex only serialises callers, so
  a call is one atomic step of the model.
\<close>

definition rr_next ::
  "('c, 'w, 'r) roundRobinFetcher \<Rightarrow> panic + (('c, 'w, 'r) Fetcher \<times> ('c, 'w, 'r) roundRobinFetcher)"
where
  "rr_next rr =
     (if idx rr < 0 \<or> int (length (f rr)) \<le> idx rr then Inl IndexOutOfRange
      else (case go_rem (idx rr + 1) (int (length (f rr))) of
              Inl p \<Rightarrow> Inl p
            | Inr i \<Rightarrow> Inr (f rr ! nat (idx rr), rr\<lparr>idx := i\<rparr>)))"

definition Fetch ::
  "('c, 'w, 'r) roundRobinFetcher \<Rightarrow> 'c \<Rightarrow> string \<Rightarrow> 'w
     \<Rightarrow> panic + (('r \<times> 'w) \<times> ('c, 'w, 'r) roundRobinFetcher)"
where
  "Fetch rr ctx path w =
     (case rr_next rr of
        Inl p \<Rightarrow> Inl p
      | Inr (g, rr') \<Rightarrow> Inr (g ctx path w, rr'))"

text \<open>
  A sequence of \<^verbatim>\<open>Fetch\<close> calls, in the order in which they take the lock; the results
  are collected in call order.
\<close>

fun Fetch_calls ::
  "('c, 'w, 'r) roundRobinFetcher \<Rightarrow> ('c \<times> string) list \<Rightarrow> 'w
     \<Rightarrow> panic + ('r list \<times> 'w \<times> ('c, 'w, 'r) roundRobinFetcher)"
where
  "Fetch_calls rr [] w = Inr ([], w, rr)"
| "Fetch_calls rr ((ctx, path) # cs) w =
     (case Fetch rr ctx path w of
        Inl p \<Rightarrow> Inl p
      | Inr ((r, w'), rr') \<Rightarrow>
          (case Fetch_calls rr' cs w' of
             Inl p \<Rightarrow> Inl p
           | Inr (rs, w'', rr'') \<Rightarrow> Inr (r # rs, w'', rr'')))"

text \<open>
  The rotation as the specification words it: call number \<open>k\<close> goes to sub-fetcher
  \<open>k mod N\<close>, and its result is passed on as it is.
\<close>

fun rotation_spec ::
  "('c, 'w, 'r) Fetcher list \<Rightarrow> nat \<Rightarrow> ('c \<times> string) list \<Rightarrow> 'w \<Rightarrow> 'r list \<times> 'w"
where
  "rotation_spec fs k [] w = ([], w)"
| "rotation_spec fs k ((ctx, path) # cs) w =
     (case (fs ! (k mod length fs)) ctx path w of
        (r, w') \<Rightarrow> (case rotation_spec fs (Suc k) cs w' of (rs, w'') \<Rightarrow> (r # rs, w'')))"

subsection \<open>Formatting\<close>

text \<open>The verbs of \<^verbatim>\<open>fmt.Sprintf\<close> that the program uses: \<^verbatim>\<open>%d\<close> and \<^verbatim>\<open>%x\<close>.\<close>

definition digit_char :: "nat \<Rightarrow> char" where
  "digit_char d = ''0123456789'' ! d"

text \<open>\<^verbatim>\<open>%d\<close> of an unsigned integer: its decimal digits, no sign, no leading zero.\<close>

fun decimal :: "nat \<Rightarrow> string" where
  "decimal k = (if k < 10 then [digit_char k] else decimal (k div 10) @ [digit_char (k mod 10)])"

declare decimal.simps [simp del]




definition newline :: char where
  "newline = CHR 0x0A"

subsection \<open>Errors and the consistency poll of Hammer.Run\<close>

text \<open>
  Modelled from the spec: \<^verbatim>\<open>client.ErrInconsistency\<close> is declared in the client package,
  which is not under src/. The spec calls it a distinguishable inconsistency error that
  carries the two conflicting raw checkpoint representations; the program reads its fields
  \<^verbatim>\<open>SmallerRaw\<close> and \<^verbatim>\<open>LargerRaw\<close>. The other constructors are the errors of
  Go's standard library: an error with a message, an error that wraps another
  (\<^verbatim>\<open>Unwrap() error\<close>) and a join of several (\<^verbatim>\<open>Unwrap() []error\<close>).
\<close>

datatype go_error =
    ErrInconsistency (SmallerRaw: bytes) (LargerRaw: bytes) (Wrapped: "go_error option")
  | ErrPlain string
  | ErrWrap string go_error
  | ErrJoin "go_error list"

fun first_Some :: "'a option list \<Rightarrow> 'a option" where
  "first_Some [] = None"
| "first_Some (None # xs) = first_Some xs"
| "first_Some (Some x # xs) = Some x"

text \<open>
  \<^verbatim>\<open>errors.As(err, &inconsistentErr)\<close>: the first error of type ErrInconsistency in the
  tree of \<open>err\<close>, depth first; that error is the one the target is set to.
\<close>

fun errors_As :: "go_error \<Rightarrow> go_error option" where
  "errors_As (ErrInconsistency s l w) = Some (ErrInconsistency s l w)"
| "errors_As (ErrPlain m) = None"
| "errors_As (ErrWrap m e) = errors_As e"
| "errors_As (ErrJoin es) = first_Some (map errors_As es)"

text \<open>
  What klog writes. A warning carries the error it prints; a fatal line carries the
  formatted message, and klog ends the process after writing it; \<open>InfoV v\<close> is a line at
  verbosity \<open>v\<close>; \<open>FoundTwoIndices\<close> is the verbosity 2 line of the leaf consumer, kept
  with its three arguments.
\<close>

datatype log_line =
    Warning go_error
  | Fatal string
  | InfoV nat string
  | FoundTwoIndices bytes "64 word" "64 word"

text \<open>
  The tracker is an external collaborator: \<open>LatestConsistentSize\<close> reads
  \<^verbatim>\<open>tracker.LatestConsistent.Size\<close>, \<open>Update\<close> is \<^verbatim>\<open>tracker.Update\<close> (its error is
  the only result the program looks at), and \<open>ErrorText\<close> is the \<^verbatim>\<open>Error()\<close> method
  that the verb \<^verbatim>\<open>%v\<close> prints.
\<close>

record 'tr tracker_api =
  LatestConsistentSize :: "'tr \<Rightarrow> 64 word"
  Update :: "'tr \<Rightarrow> go_error option \<times> 'tr"
  ErrorText :: "go_error \<Rightarrow> string"

definition fatal_message :: "(go_error \<Rightarrow> string) \<Rightarrow> go_error \<Rightarrow> string" where
  "fatal_message text inc =
     ''Last Good Checkpoint:'' @ [newline] @ SmallerRaw inc @ [newline, newline] @
     ''First Bad Checkpoint:'' @ [newline] @ LargerRaw inc @ [newline, newline] @ text inc"

definition updated_message :: "64 word \<Rightarrow> 64 word \<Rightarrow> string" where
  "updated_message old new =
     ''Updated checkpoint from '' @ decimal (unat old) @ '' to '' @ decimal (unat new)"

datatype tick_result = Continue | ProcessExit

text \<open>The body of the \<^verbatim>\<open>case <-tick.C\<close> branch (lines 275 to 287).\<close>

definition poll_tick :: "'tr tracker_api \<Rightarrow> 'tr \<Rightarrow> log_line list \<times> tick_result \<times> 'tr" where
  "poll_tick api tr =
     (let size = LatestConsistentSize api tr;
          (err, tr') = Update api tr;
          newSize = LatestConsistentSize api tr';
          report = (if newSize > size then [InfoV 1 (updated_message size newSize)] else [])
      in case err of
           None \<Rightarrow> (report, Continue, tr')
         | Some e \<Rightarrow>
             (case errors_As e of
                Some inc \<Rightarrow>
                  ([Warning e, Fatal (fatal_message (ErrorText api) inc)], ProcessExit, tr')
              | None \<Rightarrow> (Warning e # report, Continue, tr')))"

text \<open>
  The loop of the goroutine (lines 270 to 289) over the events its \<^verbatim>\<open>select\<close> receives:
  the context is cancelled, or the ticker fires. When no event is left the goroutine is
  still waiting in its \<^verbatim>\<open>select\<close>.
\<close>

datatype poll_event = CtxDone | TickC

datatype loop_status = Waiting | Returned | Exited

fun poll_loop :: "'tr tracker_api \<Rightarrow> poll_event list \<Rightarrow> 'tr \<Rightarrow> log_line list \<times> loop_status \<times> 'tr" where
  "poll_loop api [] tr = ([], Waiting, tr)"
| "poll_loop api (CtxDone # es) tr = ([], Returned, tr)"
| "poll_loop api (TickC # es) tr =
     (case poll_tick api tr of
        (out, ProcessExit, tr') \<Rightarrow> (out, Exited, tr')
      | (out, Continue, tr') \<Rightarrow>
          (case poll_loop api es tr' of (out', st, tr'') \<Rightarrow> (out @ out', st, tr'')))"

subsection \<open>LeafConsumer\<close>

text \<open>
  Modelled from the spec: the recency cache is \<^verbatim>\<open>lru.Cache\<close> of hashicorp/golang-lru,
  which is not under src/. The spec calls it a bounded mapping whose capacity is fixed at
  construction and whose eviction is least recently used. The entries are kept most
  recently used first. \<^verbatim>\<open>Get\<close> makes the entry it finds the most recent one;
  \<^verbatim>\<open>Add\<close> of a new key puts it first and evicts the last entry when the capacity is
  exceeded; \<^verbatim>\<open>Add\<close> of a present key replaces its value and makes it the most recent.
\<close>

record ('k, 'v) lru =
  capacity :: nat
  entries :: "('k \<times> 'v) list"

definition lru_New :: "nat \<Rightarrow> ('k, 'v) lru" where
  "lru_New n = \<lparr>capacity = n, entries = []\<rparr>"

definition lru_Get :: "('k, 'v) lru \<Rightarrow> 'k \<Rightarrow> 'v option \<times> ('k, 'v) lru" where
  "lru_Get c k =
     (case map_of (entries c) k of
        None \<Rightarrow> (None, c)
      | Some v \<Rightarrow> (Some v, c\<lparr>entries := (k, v) # filter (\<lambda>e. fst e \<noteq> k) (entries c)\<rparr>))"

definition lru_Add :: "('k, 'v) lru \<Rightarrow> 'k \<Rightarrow> 'v \<Rightarrow> ('k, 'v) lru" where
  "lru_Add c k v =
     (case map_of (entries c) k of
        Some u \<Rightarrow> c\<lparr>entries := (k, v) # filter (\<lambda>e. fst e \<noteq> k) (entries c)\<rparr>
      | None \<Rightarrow>
          (let es = (k, v) # entries c
           in c\<lparr>entries := (if length es > capacity c then butlast es else es)\<rparr>))"

record Leaf =
  Data :: bytes
  Index :: "64 word"

text \<open>
  The consumer's state. The channel \<^verbatim>\<open>leafchan\<close> is its input: the model is given the
  leaves in the order in which the loop receives them.
\<close>

record LeafConsumer =
  lookup :: "(string, 64 word) lru"
  duplicateCount :: "64 word"

definition NewLeafConsumer :: LeafConsumer where
  "NewLeafConsumer = \<lparr>lookup = lru_New 1024, duplicateCount = 0\<rparr>"

text \<open>The body of the \<^verbatim>\<open>case l := <-c.leafchan\<close> branch (lines 183 to 191).\<close>

definition consume :: "LeafConsumer \<Rightarrow> Leaf \<Rightarrow> log_line list \<times> LeafConsumer" where
  "consume c l =
     (let strData = Data l
      in case lru_Get (lookup c) strData of
           (Some oIdx, lk) \<Rightarrow>
             (if oIdx \<noteq> Index l
              then ([FoundTwoIndices strData oIdx (Index l)],
                    c\<lparr>lookup := lk, duplicateCount := duplicateCount c + 1\<rparr>)
              else ([], c\<lparr>lookup := lk\<rparr>))
         | (None, lk) \<Rightarrow> ([], c\<lparr>lookup := lru_Add lk strData (Index l)\<rparr>))"

datatype consumer_event = Cancelled | Received Leaf

fun LeafConsumer_Run :: "LeafConsumer \<Rightarrow> consumer_event list \<Rightarrow> log_line list \<times> LeafConsumer" where
  "LeafConsumer_Run c [] = ([], c)"
| "LeafConsumer_Run c (Cancelled # es) = ([], c)"
| "LeafConsumer_Run c (Received l # es) =
     (case consume c l of
        (out, c') \<Rightarrow> (case LeafConsumer_Run c' es of (out', c'') \<Rightarrow> (out @ out', c'')))"

text \<open>The state after the loop has received the leaves \<open>ls\<close>, in this order.\<close>

definition consumed :: "LeafConsumer \<Rightarrow> Leaf list \<Rightarrow> LeafConsumer" where
  "consumed c ls = snd (LeafConsumer_Run c (map Received ls))"

text \<open>
  A received leaf is a cross-index duplicate when the cache holds its content under
  another index.
\<close>

definition mismatch :: "LeafConsumer \<Rightarrow> Leaf \<Rightarrow> bool" where
  "mismatch c l =
     (case map_of (entries (lookup c)) (Data l) of None \<Rightarrow> False | Some oIdx \<Rightarrow> oIdx \<noteq> Index l)"

fun mismatches :: "LeafConsumer \<Rightarrow> Leaf list \<Rightarrow> nat" where
  "mismatches c [] = 0"
| "mismatches c (l # ls) = (if mismatch c l then 1 else 0) + mismatches (consumed c [l]) ls"

text \<open>The first leaf of a list that bears a given content.\<close>

fun first_with :: "bytes \<Rightarrow> Leaf list \<Rightarrow> Leaf option" where
  "first_with d [] = None"
| "first_with d (l # ls) = (if Data l = d then Some l else first_with d ls)"

subsection \<open>genLeaf and the leaf generator\<close>














subsection \<open>Throttle\<close>

text \<open>
  \<^verbatim>\<open>int\<close> is the 64-bit signed integer of the platforms the tool runs on. The model
  keeps an \<^verbatim>\<open>int\<close> as an Isabelle integer and writes the wrap-around out where the
  program adds or subtracts.
\<close>

definition wrap64 :: "int \<Rightarrow> int" where
  "wrap64 x = (x + 2 ^ 63) mod 2 ^ 64 - 2 ^ 63"

text \<open>
  The step is computed in float64. A float64 has 53 significant bits, and every operation
  rounds its exact result to the nearest such number, ties to the even one; \<open>round53\<close> does
  this to a natural number (the values that occur are far from the limits of the exponent).
  A number of \<open>bit_len m\<close> bits is rounded to a multiple of \<open>2 ^ (bit_len m - 53)\<close>; a
  number of at most 53 bits is kept as it is.
\<close>

fun bit_len :: "nat \<Rightarrow> nat" where
  "bit_len k = (if k = 0 then 0 else Suc (bit_len (k div 2)))"

declare bit_len.simps [simp del]

definition round53 :: "nat \<Rightarrow> nat" where
  "round53 m =
     (let s = bit_len m - 53;
          q = m div 2 ^ s;
          r = m mod 2 ^ s;
          up = (2 * r > 2 ^ s \<or> (2 * r = 2 ^ s \<and> odd q))
      in (if up then q + 1 else q) * 2 ^ s)"

text \<open>\<^verbatim>\<open>float64(tokenCount)\<close>: the value of the result, which is an integer.\<close>

definition float64_of_int :: "int \<Rightarrow> int" where
  "float64_of_int k = sgn k * int (round53 (nat \<bar>k\<bar>))"

text \<open>
  The constant \<^verbatim>\<open>0.1\<close> is the float64 \<open>3602879701896397 / 2 ^ 55\<close>. The product of an
  integer-valued float64 \<open>x\<close> with it is a multiple of \<open>1 / 2 ^ 55\<close>, before and after
  rounding: \<open>times_tenth x\<close> is the rounded product in units of \<open>1 / 2 ^ 55\<close>. In these
  units the number 1 is \<open>2 ^ 55\<close>, and the conversion \<^verbatim>\<open>int(delta)\<close>, which truncates
  towards zero, is \<open>trunc55\<close>.
\<close>

definition tenth :: nat where
  "tenth = 3602879701896397"

definition times_tenth :: "int \<Rightarrow> int" where
  "times_tenth x = sgn x * int (round53 (nat \<bar>x\<bar> * tenth))"

definition trunc55 :: "int \<Rightarrow> int" where
  "trunc55 d = sgn d * (\<bar>d\<bar> div 2 ^ 55)"

text \<open>Lines 336 to 340 and 348 to 352: \<^verbatim>\<open>int(delta)\<close> after \<^verbatim>\<open>delta\<close> is raised to 1.\<close>

definition step_of :: "int \<Rightarrow> int" where
  "step_of tokenCount =
     (let delta = times_tenth (float64_of_int tokenCount);
          delta' = (if delta < 2 ^ 55 then 2 ^ 55 else delta)
      in trunc55 delta')"

text \<open>
  A channel of tokens: its capacity, fixed by \<^verbatim>\<open>make\<close>, and the number of tokens in its
  buffer.
\<close>

record chan =
  chan_cap :: nat
  chan_len :: nat

record Throttle =
  opsPerSecond :: int
  tokenChan :: chan
  oversupply :: int

text \<open>
  \<^verbatim>\<open>make(chan bool, n)\<close> panics when \<open>n\<close> is negative. (It also panics when the buffer
  does not fit in memory; the model has no such limit.)
\<close>

definition NewThrottle :: "int \<Rightarrow> panic + Throttle" where
  "NewThrottle ops =
     (if ops < 0 then Inl MakechanSizeOutOfRange
      else Inr \<lparr>opsPerSecond = ops,
                tokenChan = \<lparr>chan_cap = nat ops, chan_len = 0\<rparr>,
                oversupply = 0\<rparr>)"

definition Increase :: "Throttle \<Rightarrow> Throttle" where
  "Increase t =
     (let tokenCount = opsPerSecond t
      in t\<lparr>opsPerSecond := wrap64 (tokenCount + step_of tokenCount)\<rparr>)"

definition Decrease :: "Throttle \<Rightarrow> Throttle" where
  "Decrease t =
     (let tokenCount = opsPerSecond t
      in if tokenCount \<le> 1 then t
         else t\<lparr>opsPerSecond := wrap64 (tokenCount - step_of tokenCount)\<rparr>)"

text \<open>The calls that the keys of the dashboard make, one after the other.\<close>

datatype rate_call = CallIncrease | CallDecrease

fun call :: "rate_call \<Rightarrow> Throttle \<Rightarrow> Throttle" where
  "call CallIncrease t = Increase t"
| "call CallDecrease t = Decrease t"

fun rate_calls :: "Throttle \<Rightarrow> rate_call list \<Rightarrow> Throttle" where
  "rate_calls t [] = t"
| "rate_calls t (c # cs) = rate_calls (call c t) cs"

text \<open>The rates that a sequence of calls goes through, the first one included.\<close>

fun rates :: "Throttle \<Rightarrow> rate_call list \<Rightarrow> int list" where
  "rates t [] = [opsPerSecond t]"
| "rates t (c # cs) = opsPerSecond t # rates (call c t) cs"

text \<open>
  The refill cycle of \<^verbatim>\<open>Throttle.Run\<close> (lines 362 to 373). The loop runs beside the
  workers, which receive tokens, and beside the dashboard, which calls \<^verbatim>\<open>Increase\<close> and
  \<^verbatim>\<open>Decrease\<close>; the loop reads \<^verbatim>\<open>t.opsPerSecond\<close> again at every test. A schedule
  gives, for every iteration, what the others do before the test of that iteration and
  which case the \<^verbatim>\<open>select\<close> takes. A worker that receives takes one token out of the
  buffer, and waits when the buffer is empty. A send that is taken puts the token in the
  buffer, or hands it to a receiver when the buffer is full or absent. The timeout fires
  after one second, so a schedule that ends leaves the \<^verbatim>\<open>select\<close> to the timeout.
\<close>

datatype interference = Rate rate_call | WorkerReceives

datatype select_case = Sent | TimedOut

fun interfere :: "interference \<Rightarrow> Throttle \<Rightarrow> Throttle" where
  "interfere (Rate c) t = call c t"
| "interfere WorkerReceives t =
     t\<lparr>tokenChan := (tokenChan t)\<lparr>chan_len := chan_len (tokenChan t) - 1\<rparr>\<rparr>"

definition interferes :: "interference list \<Rightarrow> Throttle \<Rightarrow> Throttle" where
  "interferes xs t = fold interfere xs t"

definition send_token :: "Throttle \<Rightarrow> Throttle" where
  "send_token t =
     t\<lparr>tokenChan := (tokenChan t)\<lparr>chan_len :=
        min (chan_len (tokenChan t) + 1) (chan_cap (tokenChan t))\<rparr>\<rparr>"

text \<open>
  The loop at \<^verbatim>\<open>Loop:\<close>, from the test of iteration \<open>i\<close> on. Its result is the
  throttle, \<^verbatim>\<open>tokenCount\<close> and, for the statements below, the number of tokens pushed.
\<close>

fun refill ::
  "Throttle \<Rightarrow> int \<Rightarrow> int \<Rightarrow> nat \<Rightarrow> (interference list \<times> select_case) list \<Rightarrow> Throttle \<times> int \<times> nat"
where
  "refill t i tokenCount pushed [] = (t, tokenCount, pushed)"
| "refill t i tokenCount pushed ((pre, sel) # sched) =
     (let t1 = interferes pre t
      in if i < opsPerSecond t1
         then (case sel of
                 Sent \<Rightarrow> refill (send_token t1) (i + 1) (tokenCount - 1) (Suc pushed) sched
               | TimedOut \<Rightarrow> (t1, tokenCount, pushed))
         else (t1, tokenCount, pushed))"

definition refill_cycle :: "Throttle \<Rightarrow> (interference list \<times> select_case) list \<Rightarrow> Throttle \<times> nat" where
  "refill_cycle t sched =
     (let tokenCount = opsPerSecond t
      in case refill t 0 tokenCount 0 sched of
           (t', tokenCount', pushed) \<Rightarrow> (t'\<lparr>oversupply := tokenCount'\<rparr>, pushed))"

text \<open>A schedule in which nobody calls \<^verbatim>\<open>Increase\<close> or \<^verbatim>\<open>Decrease\<close>.\<close>

fun no_rate_call :: "interference \<Rightarrow> bool" where
  "no_rate_call (Rate c) = False"
| "no_rate_call WorkerReceives = True"

definition rate_untouched :: "(interference list \<times> select_case) list \<Rightarrow> bool" where
  "rate_untouched sched = list_all (\<lambda>it. list_all no_rate_call (fst it)) sched"

text \<open>
  The life of a throttle: \<^verbatim>\<open>Throttle.Run\<close> (lines 357 to 375) runs a refill cycle at
  every tick until the context is cancelled, while the dashboard calls \<^verbatim>\<open>Increase\<close> and
  \<^verbatim>\<open>Decrease\<close> and workers receive tokens, in any order. The flag tells whether
  \<^verbatim>\<open>Run\<close> is still in its loop.
\<close>

datatype throttle_event =
    Other interference
  | TickerC "(interference list \<times> select_case) list"
  | RunCancelled

fun run_events :: "bool \<Rightarrow> Throttle \<Rightarrow> throttle_event list \<Rightarrow> Throttle" where
  "run_events running t [] = t"
| "run_events running t (Other x # evs) = run_events running (interfere x t) evs"
| "run_events running t (TickerC sched # evs) =
     run_events running (if running then fst (refill_cycle t sched) else t) evs"
| "run_events running t (RunCancelled # evs) = run_events False t evs"

definition lifetime :: "Throttle \<Rightarrow> throttle_event list \<Rightarrow> Throttle" where
  "lifetime t evs = run_events True t evs"

subsection \<open>Notions for the statements and their examples\<close>

text \<open>
  The report of lines 284 to 287, as a function of the tracker before and after the
  update.
\<close>

definition report_of :: "'tr tracker_api \<Rightarrow> 'tr \<Rightarrow> 'tr \<Rightarrow> log_line list" where
  "report_of api tr tr' = (if LatestConsistentSize api tr' > LatestConsistentSize api tr
       then [InfoV 1 (updated_message (LatestConsistentSize api tr) (LatestConsistentSize api tr'))]
       else [])"

text \<open>
  A tracker for the examples: its state counts the calls of \<^verbatim>\<open>Update\<close>, which always
  fails with the given error.
\<close>

definition demo_api :: "go_error \<Rightarrow> nat tracker_api" where
  "demo_api e = \<lparr>LatestConsistentSize = (\<lambda>tr. 7), Update = (\<lambda>tr. (Some e, Suc tr)),
      ErrorText = (\<lambda>e. ''inconsistent'')\<rparr>"


text \<open>Leaves with pairwise distinct contents, for the examples.\<close>

definition many_leaves :: "nat \<Rightarrow> Leaf list" where
  "many_leaves k = map (\<lambda>i. \<lparr>Data = replicate (Suc i) (CHR ''a''), Index = 0\<rparr>) [0..<k]"

text \<open>The queue of a throttle has capacity \<open>n\<close> and holds at most \<open>n\<close> tokens.\<close>

definition queue_within :: "nat \<Rightarrow> Throttle \<Rightarrow> bool" where
  "queue_within n t \<longleftrightarrow> chan_cap (tokenChan t) = n \<and> chan_len (tokenChan t) \<le> n"

text \<open>
  The rate that \<^verbatim>\<open>Increase\<close> leaves, as a function of the rate it finds, and the rate
  after \<open>k\<close> calls of \<^verbatim>\<open>Increase\<close>.
\<close>

definition next_rate :: "int \<Rightarrow> int" where
  "next_rate r = wrap64 (r + step_of r)"

fun climb :: "nat \<Rightarrow> int \<Rightarrow> int" where
  "climb 0 r = r"
| "climb (Suc k) r = climb k (next_rate r)"

section \<open>Properties\<close>

subsection \<open>roundRobinFetcher\<close>

lemma go_rem_nonneg:
  "0 \<le> a \<Longrightarrow> 0 < b \<Longrightarrow> go_rem a b = Inr (a mod b)"
  by (simp add: go_rem_def sgn_if)

lemma rr_next_in_range:
  assumes "0 \<le> idx rr" and "idx rr < int (length (f rr))"
  shows "rr_next rr =
    Inr (f rr ! nat (idx rr), rr\<lparr>idx := (idx rr + 1) mod int (length (f rr))\<rparr>)"
proof -
  have "go_rem (idx rr + 1) (int (length (f rr))) = Inr ((idx rr + 1) mod int (length (f rr)))"
    using assms by (intro go_rem_nonneg) linarith+
  then show ?thesis
    using assms by (simp add: rr_next_def)
qed

lemma rr_next_empty: "f rr = [] \<Longrightarrow> rr_next rr = Inl IndexOutOfRange"
  by (auto simp add: rr_next_def)

lemma Fetch_at:
  assumes "fs \<noteq> []"
  shows "Fetch \<lparr>idx = int (k mod length fs), f = fs\<rparr> ctx path w =
    Inr ((fs ! (k mod length fs)) ctx path w, \<lparr>idx = int (Suc k mod length fs), f = fs\<rparr>)"
proof -
  have len: "0 < length fs" using assms by simp
  have lt: "int (k mod length fs) < int (length fs)" using len by simp
  have "int (Suc k mod length fs) = (int k + 1) mod int (length fs)"
    by (simp add: zmod_int add.commute)
  also have "\<dots> = (int k mod int (length fs) + 1) mod int (length fs)"
    by (simp add: mod_add_left_eq)
  finally have step:
    "(int (k mod length fs) + 1) mod int (length fs) = int (Suc k mod length fs)"
    by (simp add: zmod_int)
  show ?thesis
    using lt step by (simp add: Fetch_def rr_next_in_range)
qed

lemma Fetch_calls_from:
  assumes "fs \<noteq> []"
  shows "Fetch_calls \<lparr>idx = int (k mod length fs), f = fs\<rparr> cs w =
    Inr (fst (rotation_spec fs k cs w), snd (rotation_spec fs k cs w),
         \<lparr>idx = int ((k + length cs) mod length fs), f = fs\<rparr>)"
  using assms
proof (induction cs arbitrary: k w)
  case Nil
  then show ?case by simp
next
  case (Cons c cs)
  obtain ctx path where c: "c = (ctx, path)" by (cases c)
  obtain r w' where r: "(fs ! (k mod length fs)) ctx path w = (r, w')"
    by (cases "(fs ! (k mod length fs)) ctx path w")
  have "Fetch_calls \<lparr>idx = int (Suc k mod length fs), f = fs\<rparr> cs w' =
    Inr (fst (rotation_spec fs (Suc k) cs w'), snd (rotation_spec fs (Suc k) cs w'),
         \<lparr>idx = int ((Suc k + length cs) mod length fs), f = fs\<rparr>)"
    using Cons.IH [OF Cons.prems] .
  then show ?case
    using Cons.prems by (simp add: c r Fetch_at split: prod.splits)
qed

text \<open>
  C7. A roundRobinFetcher built from a non-empty list of \<open>N\<close> sub-fetchers, its index at 0:
  the \<open>k\<close>-th call of \<^verbatim>\<open>Fetch\<close> (from 0, in lock order) is answered by sub-fetcher
  \<open>k mod N\<close>, whose result is returned as it is; no call panics.
\<close>

theorem Fetch_round_robin:
  assumes "fs \<noteq> []"
  shows "Fetch_calls \<lparr>idx = 0, f = fs\<rparr> cs w =
    Inr (fst (rotation_spec fs 0 cs w), snd (rotation_spec fs 0 cs w),
         \<lparr>idx = int (length cs mod length fs), f = fs\<rparr>)"
  using Fetch_calls_from [OF assms, of 0 cs w] by simp

theorem Fetch_round_robin_witness:
  "[\<lambda>c p w. ((0::nat, p), Suc w), \<lambda>c p w. ((1, p), Suc w), \<lambda>c p w. ((2, p), Suc w)] \<noteq> [] \<and>
   Fetch_calls
     \<lparr>idx = 0,
      f = [\<lambda>c p w. ((0::nat, p), Suc w), \<lambda>c p w. ((1, p), Suc w), \<lambda>c p w. ((2, p), Suc w)]\<rparr>
     [((), ''a''), ((), ''b''), ((), ''c''), ((), ''d'')] (0::nat) =
   Inr ([(0, ''a''), (1, ''b''), (2, ''c''), (0, ''d'')], 4,
        \<lparr>idx = 1,
         f = [\<lambda>c p w. ((0::nat, p), Suc w), \<lambda>c p w. ((1, p), Suc w), \<lambda>c p w. ((2, p), Suc w)]\<rparr>)"
  using Fetch_round_robin
    [of "[\<lambda>c p w. ((0::nat, p), Suc w), \<lambda>c p w. ((1, p), Suc w), \<lambda>c p w. ((2, p), Suc w)]"
        "[((), ''a''), ((), ''b''), ((), ''c''), ((), ''d'')]" "0::nat"]
  by simp

text \<open>
  C10, as amended. When the list of sub-fetchers is not empty and the index is in range,
  \<^verbatim>\<open>next\<close> does not panic, returns the sub-fetcher at the index, keeps the list and
  leaves the index in range. When the list is empty, \<^verbatim>\<open>next\<close> panics at the indexing of
  line 85 (index out of range); the modulo of line 86 is not reached.
\<close>

theorem rr_next_index_in_range:
  "(f rr \<noteq> [] \<and> 0 \<le> idx rr \<and> idx rr < int (length (f rr)) \<longrightarrow>
      (\<exists>rr'. rr_next rr = Inr (f rr ! nat (idx rr), rr') \<and> f rr' = f rr \<and>
             0 \<le> idx rr' \<and> idx rr' < int (length (f rr')))) \<and>
   (f rr = [] \<longrightarrow> rr_next rr = Inl IndexOutOfRange)"
proof (intro conjI impI)
  assume a: "f rr \<noteq> [] \<and> 0 \<le> idx rr \<and> idx rr < int (length (f rr))"
  then have pos: "0 < int (length (f rr))" by simp
  let ?rr' = "rr\<lparr>idx := (idx rr + 1) mod int (length (f rr))\<rparr>"
  have "rr_next rr = Inr (f rr ! nat (idx rr), ?rr')"
    using a by (simp add: rr_next_in_range)
  moreover have "f ?rr' = f rr" by simp
  moreover have "0 \<le> idx ?rr'" using pos by simp
  moreover have "idx ?rr' < int (length (f ?rr'))" using pos by simp
  ultimately show "\<exists>rr'. rr_next rr = Inr (f rr ! nat (idx rr), rr') \<and> f rr' = f rr \<and>
             0 \<le> idx rr' \<and> idx rr' < int (length (f rr'))"
    by blast
next
  assume "f rr = []"
  then show "rr_next rr = Inl IndexOutOfRange" by (rule rr_next_empty)
qed

theorem rr_next_index_in_range_witness:
  "(\<exists>rr'. rr_next \<lparr>idx = 1, f = [\<lambda>(c::unit) p (w::nat). (p, w), \<lambda>c p w. (p @ p, Suc w)]\<rparr> =
           Inr ([\<lambda>(c::unit) p (w::nat). (p, w), \<lambda>c p w. (p @ p, Suc w)] ! 1, rr') \<and>
         f rr' = [\<lambda>(c::unit) p (w::nat). (p, w), \<lambda>c p w. (p @ p, Suc w)] \<and>
         0 \<le> idx rr' \<and> idx rr' < 2) \<and>
   rr_next \<lparr>idx = 0, f = ([] :: (unit, nat, string) Fetcher list)\<rparr> = Inl IndexOutOfRange"
  using rr_next_index_in_range
    [of "\<lparr>idx = 1, f = [\<lambda>(c::unit) p (w::nat). (p, w), \<lambda>c p w. (p @ p, Suc w)]\<rparr>"]
    rr_next_index_in_range [of "\<lparr>idx = 0, f = ([] :: (unit, nat, string) Fetcher list)\<rparr>"]
  by auto

theorem rr_next_empty_counterexample:
  "rr_next \<lparr>idx = 0, f = ([] :: (unit, nat, string) Fetcher list)\<rparr> = Inl IndexOutOfRange \<and>
   rr_next \<lparr>idx = 0, f = ([] :: (unit, nat, string) Fetcher list)\<rparr> \<noteq> Inl DivideByZero"
  by (simp add: rr_next_def)

subsection \<open>The consistency poll\<close>

lemma errors_As_first_Some:
  "first_Some (map errors_As es) = Some inc \<Longrightarrow> \<exists>e \<in> set es. errors_As e = Some inc"
  by (induction es) (auto split: option.splits elim: first_Some.elims)

lemma errors_As_is_inconsistency:
  "errors_As e = Some inc \<Longrightarrow> \<exists>s l w. inc = ErrInconsistency s l w"
proof (induction e arbitrary: inc rule: errors_As.induct)
  case (4 es)
  then show ?case using errors_As_first_Some by fastforce
qed auto

lemma fatal_message_smaller: "sublist (SmallerRaw inc) (fatal_message text inc)"
  unfolding fatal_message_def
  using sublist_appendI [of "SmallerRaw inc" "''Last Good Checkpoint:'' @ [newline]"] 
  by simp

lemma fatal_message_larger: "sublist (LargerRaw inc) (fatal_message text inc)"
  unfolding fatal_message_def
  using sublist_appendI [of "LargerRaw inc"
    "''Last Good Checkpoint:'' @ [newline] @ SmallerRaw inc @ [newline, newline] @
     ''First Bad Checkpoint:'' @ [newline]" "[newline, newline] @ text inc"]
  by simp

text \<open>
  C1. In the poll loop, when \<^verbatim>\<open>Update\<close> returns an error in which \<^verbatim>\<open>errors.As\<close> finds
  an inconsistency error, the tick writes the warning and then the fatal line and ends the
  process: no later tick runs, and the fatal message contains both raw checkpoints, the
  smaller and the larger. For every other error of \<^verbatim>\<open>Update\<close> the tick writes the
  warning (and the size report, when the size has grown) and the loop goes on with the
  next event.
\<close>

theorem poll_inconsistency_is_fatal:
  assumes "Update api tr = (Some e, tr')"
  shows "(errors_As e = Some inc \<longrightarrow>
            poll_tick api tr =
              ([Warning e, Fatal (fatal_message (ErrorText api) inc)], ProcessExit, tr') \<and>
            poll_loop api (TickC # es) tr =
              ([Warning e, Fatal (fatal_message (ErrorText api) inc)], Exited, tr') \<and>
            (\<exists>s l w. inc = ErrInconsistency s l w) \<and>
            sublist (SmallerRaw inc) (fatal_message (ErrorText api) inc) \<and>
            sublist (LargerRaw inc) (fatal_message (ErrorText api) inc)) \<and>
         (errors_As e = None \<longrightarrow>
            poll_tick api tr = (Warning e # report_of api tr tr', Continue, tr') \<and>
            poll_loop api (TickC # es) tr =
              (Warning e # report_of api tr tr' @ fst (poll_loop api es tr'),
               snd (poll_loop api es tr')))"
proof (intro conjI impI)
  assume inc: "errors_As e = Some inc"
  show tick: "poll_tick api tr =
      ([Warning e, Fatal (fatal_message (ErrorText api) inc)], ProcessExit, tr')"
    using assms inc by (simp add: poll_tick_def Let_def)
  show "poll_loop api (TickC # es) tr =
      ([Warning e, Fatal (fatal_message (ErrorText api) inc)], Exited, tr')"
    by (simp add: tick)
  show "\<exists>s l w. inc = ErrInconsistency s l w"
    using inc by (rule errors_As_is_inconsistency)
  show "sublist (SmallerRaw inc) (fatal_message (ErrorText api) inc)"
    by (rule fatal_message_smaller)
  show "sublist (LargerRaw inc) (fatal_message (ErrorText api) inc)"
    by (rule fatal_message_larger)
next
  assume none: "errors_As e = None"
  show tick: "poll_tick api tr = (Warning e # report_of api tr tr', Continue, tr')"
    using assms none by (simp add: poll_tick_def Let_def report_of_def)
  show "poll_loop api (TickC # es) tr =
      (Warning e # report_of api tr tr' @ fst (poll_loop api es tr'),
       snd (poll_loop api es tr'))"
    by (simp add: tick split: prod.splits)
qed

theorem poll_inconsistency_is_fatal_witness:
  "poll_loop (demo_api (ErrWrap ''update'' (ErrInconsistency ''small'' ''large'' None))) [TickC, TickC] 0 =
     ([Warning (ErrWrap ''update'' (ErrInconsistency ''small'' ''large'' None)),
       Fatal (fatal_message (\<lambda>e. ''inconsistent'') (ErrInconsistency ''small'' ''large'' None))], Exited, 1) \<and>
   sublist ''small'' (fatal_message (\<lambda>e. ''inconsistent'') (ErrInconsistency ''small'' ''large'' None)) \<and>
   sublist ''large'' (fatal_message (\<lambda>e. ''inconsistent'') (ErrInconsistency ''small'' ''large'' None)) \<and>
   poll_loop (demo_api (ErrPlain ''timeout'')) [TickC, CtxDone] 0 =
     ([Warning (ErrPlain ''timeout'')], Returned, 1)"
  using poll_inconsistency_is_fatal
    [of "demo_api (ErrWrap ''update'' (ErrInconsistency ''small'' ''large'' None))" 0
        "ErrWrap ''update'' (ErrInconsistency ''small'' ''large'' None)" 1
        "ErrInconsistency ''small'' ''large'' None" "[TickC]"]
    poll_inconsistency_is_fatal
    [of "demo_api (ErrPlain ''timeout'')" 0 "ErrPlain ''timeout''" 1 "ErrPlain ''timeout''" "[CtxDone]"]
  by (simp add: demo_api_def report_of_def)

subsection \<open>genLeaf\<close>











subsection \<open>The leaf generator\<close>

























subsection \<open>LeafConsumer\<close>

lemma consumed_Nil: "consumed c [] = c"
  by (simp add: consumed_def)

lemma consumed_Cons: "consumed c (l # ls) = consumed (snd (consume c l)) ls"
  by (simp add: consumed_def split: prod.splits)

lemma consumed_single: "consumed c [l] = snd (consume c l)"
  by (simp add: consumed_Cons consumed_Nil)

lemma consumed_append: "consumed c (xs @ ys) = consumed (consumed c xs) ys"
  by (induction xs arbitrary: c) (simp_all add: consumed_Nil consumed_Cons)

lemma map_of_filter_other:
  "k' \<noteq> k \<Longrightarrow> map_of (filter (\<lambda>e. fst e \<noteq> k) es) k' = map_of es k'"
  by (induction es) auto

lemma map_of_move_to_front:
  assumes "map_of es k = Some v"
  shows "map_of ((k, v) # filter (\<lambda>e. fst e \<noteq> k) es) = map_of es"
proof
  fix k'
  show "map_of ((k, v) # filter (\<lambda>e. fst e \<noteq> k) es) k' = map_of es k'"
    using assms by (cases "k' = k") (simp_all add: map_of_filter_other)
qed

lemma consume_hit_same:
  assumes "map_of (entries (lookup c)) (Data l) = Some (Index l)"
  shows "snd (consume c l) =
    c\<lparr>lookup := (lookup c)\<lparr>entries :=
        (Data l, Index l) # filter (\<lambda>e. fst e \<noteq> Data l) (entries (lookup c))\<rparr>\<rparr>"
  using assms by (simp add: consume_def lru_Get_def Let_def)

lemma consume_hit_other:
  assumes "map_of (entries (lookup c)) (Data l) = Some oIdx" and "oIdx \<noteq> Index l"
  shows "snd (consume c l) =
    c\<lparr>lookup := (lookup c)\<lparr>entries :=
          (Data l, oIdx) # filter (\<lambda>e. fst e \<noteq> Data l) (entries (lookup c))\<rparr>,
      duplicateCount := duplicateCount c + 1\<rparr>"
  using assms by (simp add: consume_def lru_Get_def Let_def)

lemma consume_miss:
  assumes "map_of (entries (lookup c)) (Data l) = None"
  shows "snd (consume c l) =
    c\<lparr>lookup := (lookup c)\<lparr>entries :=
        (if length (entries (lookup c)) + 1 > capacity (lookup c)
         then butlast ((Data l, Index l) # entries (lookup c))
         else (Data l, Index l) # entries (lookup c))\<rparr>\<rparr>"
  using assms by (simp add: consume_def lru_Get_def lru_Add_def Let_def)

lemma consume_count:
  "duplicateCount (snd (consume c l)) = duplicateCount c + (if mismatch c l then 1 else 0)"
proof (cases "map_of (entries (lookup c)) (Data l)")
  case None
  then show ?thesis by (simp add: consume_miss mismatch_def)
next
  case (Some oIdx)
  then show ?thesis
    by (cases "oIdx = Index l") (simp_all add: consume_hit_same consume_hit_other mismatch_def)
qed

lemma consume_capacity: "capacity (lookup (snd (consume c l))) = capacity (lookup c)"
proof (cases "map_of (entries (lookup c)) (Data l)")
  case None
  then show ?thesis by (simp add: consume_miss)
next
  case (Some oIdx)
  then show ?thesis
    by (cases "oIdx = Index l") (simp_all add: consume_hit_same consume_hit_other)
qed

lemma consumed_count:
  "duplicateCount (consumed c ls) = duplicateCount c + of_nat (mismatches c ls)"
  by (induction ls arbitrary: c)
     (simp_all add: consumed_Nil consumed_Cons consumed_single consume_count)

lemma mismatches_le: "mismatches c ls \<le> length ls"
  by (induction ls arbitrary: c) (simp_all add: le_SucI)

lemma consumed_count_mono:
  assumes "unat (duplicateCount c) + length ls < 2 ^ 64"
  shows "duplicateCount c \<le> duplicateCount (consumed c ls)"
proof -
  have "unat (duplicateCount c) + mismatches c ls < 2 ^ 64"
    using assms mismatches_le [of c ls] by simp
  then have "unat (duplicateCount c + of_nat (mismatches c ls)) =
      unat (duplicateCount c) + mismatches c ls"
    by (simp add: unat_word_ariths unat_of_nat)
  then show ?thesis
    by (simp add: consumed_count word_le_nat_alt)
qed


lemma take_append_take: "take n (xs @ take n ys) = take n (xs @ ys)"
  by (simp add: min_def)

lemma consume_miss_take:
  assumes "map_of (entries (lookup c)) (Data l) = None"
    and "length (entries (lookup c)) \<le> capacity (lookup c)"
  shows "snd (consume c l) =
    c\<lparr>lookup := (lookup c)\<lparr>entries :=
        take (capacity (lookup c)) ((Data l, Index l) # entries (lookup c))\<rparr>\<rparr>"
proof (cases "length (entries (lookup c)) + 1 > capacity (lookup c)")
  case True
  with assms(2) have "capacity (lookup c) = length (entries (lookup c))" by simp
  then have "butlast ((Data l, Index l) # entries (lookup c)) =
      take (capacity (lookup c)) ((Data l, Index l) # entries (lookup c))"
    by (simp add: butlast_conv_take)
  then show ?thesis using True assms(1) by (simp add: consume_miss)
next
  case False
  then show ?thesis using assms(1) by (simp add: consume_miss)
qed

lemma consumed_fresh:
  assumes "distinct (map Data ls)"
    and "\<forall>l \<in> set ls. Data l \<notin> fst ` set (entries (lookup c))"
    and "length (entries (lookup c)) \<le> capacity (lookup c)"
  shows "consumed c ls =
    c\<lparr>lookup := (lookup c)\<lparr>entries :=
        take (capacity (lookup c))
          (rev (map (\<lambda>l. (Data l, Index l)) ls) @ entries (lookup c))\<rparr>\<rparr>"
  using assms
proof (induction ls arbitrary: c)
  case Nil
  then show ?case by (simp add: consumed_Nil)
next
  case (Cons l ls)
  let ?es = "entries (lookup c)"
  let ?cap = "capacity (lookup c)"
  let ?c1 = "c\<lparr>lookup := (lookup c)\<lparr>entries := take ?cap ((Data l, Index l) # ?es)\<rparr>\<rparr>"
  have none: "map_of ?es (Data l) = None"
    using Cons.prems(2) by (simp add: map_of_eq_None_iff)
  have c1: "snd (consume c l) = ?c1"
    using none Cons.prems(3) by (rule consume_miss_take)
  have d: "distinct (map Data ls)" using Cons.prems(1) by simp
  have fresh: "\<forall>l' \<in> set ls. Data l' \<notin> fst ` set (entries (lookup ?c1))"
  proof
    fix l' assume l': "l' \<in> set ls"
    then have "Data l' \<in> Data ` set ls" by (rule imageI)
    then have "Data l' \<noteq> Data l" using Cons.prems(1) by auto
    moreover have "Data l' \<notin> fst ` set ?es" using Cons.prems(2) l' by simp
    ultimately have "Data l' \<notin> fst ` set ((Data l, Index l) # ?es)" by auto
    then show "Data l' \<notin> fst ` set (entries (lookup ?c1))"
      using set_take_subset [of ?cap "(Data l, Index l) # ?es"] by auto
  qed
  have len: "length (entries (lookup ?c1)) \<le> capacity (lookup ?c1)" by simp
  have "consumed c (l # ls) = consumed ?c1 ls"
    by (simp add: consumed_Cons c1)
  also have "\<dots> = ?c1\<lparr>lookup := (lookup ?c1)\<lparr>entries :=
        take (capacity (lookup ?c1))
          (rev (map (\<lambda>l. (Data l, Index l)) ls) @ entries (lookup ?c1))\<rparr>\<rparr>"
    using Cons.IH [OF d fresh len] .
  also have "\<dots> = c\<lparr>lookup := (lookup c)\<lparr>entries :=
        take ?cap (rev (map (\<lambda>l. (Data l, Index l)) (l # ls)) @ ?es)\<rparr>\<rparr>"
    by (simp add: take_append_take)
  finally show ?case .
qed

lemma fresh_leaves_evict:
  assumes "distinct (map Data ls)"
    and "\<forall>l \<in> set ls. Data l \<notin> fst ` set (entries (lookup c))"
    and "length (entries (lookup c)) \<le> capacity (lookup c)"
    and "capacity (lookup c) \<le> length ls"
    and "d \<notin> Data ` set ls"
  shows "map_of (entries (lookup (consumed c ls))) d = None"
    and "duplicateCount (consumed c ls) = duplicateCount c"
proof -
  let ?new = "rev (map (\<lambda>l. (Data l, Index l)) ls)"
  have "take (capacity (lookup c)) (?new @ entries (lookup c)) = take (capacity (lookup c)) ?new"
    using assms(4) by simp
  then have es: "entries (lookup (consumed c ls)) = take (capacity (lookup c)) ?new"
    by (simp add: consumed_fresh [OF assms(1-3)])
  have "d \<notin> fst ` set ?new" using assms(5) by (auto simp add: image_iff)
  then have "d \<notin> fst ` set (take (capacity (lookup c)) ?new)"
    using set_take_subset [of "capacity (lookup c)" ?new] by auto
  then show "map_of (entries (lookup (consumed c ls))) d = None"
    by (simp add: es map_of_eq_None_iff)
  show "duplicateCount (consumed c ls) = duplicateCount c"
    by (simp add: consumed_fresh [OF assms(1-3)])
qed

lemma consumed_capacity: "capacity (lookup (consumed c ls)) = capacity (lookup c)"
  by (induction ls arbitrary: c) (simp_all add: consumed_Nil consumed_Cons consume_capacity)

lemma consume_entries_subset:
  "set (entries (lookup (snd (consume c l)))) \<subseteq>
     insert (Data l, Index l) (set (entries (lookup c)))"
proof (cases "map_of (entries (lookup c)) (Data l)")
  case None
  then show ?thesis
    by (auto simp add: consume_miss dest: in_set_butlastD)
next
  case (Some oIdx)
  then have "(Data l, oIdx) \<in> set (entries (lookup c))" by (rule map_of_SomeD)
  then show ?thesis
    using Some by (cases "oIdx = Index l") (auto simp add: consume_hit_same consume_hit_other)
qed

lemma consumed_entries_subset:
  "set (entries (lookup (consumed c ls))) \<subseteq>
     set (entries (lookup c)) \<union> (\<lambda>l. (Data l, Index l)) ` set ls"
proof (induction ls arbitrary: c)
  case Nil
  then show ?case by (simp add: consumed_Nil)
next
  case (Cons l ls)
  show ?case
    using Cons.IH [of "snd (consume c l)"] consume_entries_subset [of c l]
    by (auto simp add: consumed_Cons)
qed

lemma consume_hit_keeps_index:
  assumes "map_of (entries (lookup c)) (Data l) = Some v"
  shows "map_of (entries (lookup (snd (consume c l)))) = map_of (entries (lookup c))"
  using assms map_of_move_to_front [OF assms]
  by (cases "v = Index l") (simp_all add: consume_hit_same consume_hit_other)

lemma first_with_None: "first_with k ls = None \<longleftrightarrow> k \<notin> Data ` set ls"
  by (induction ls) auto

lemma first_with_append:
  "first_with k (xs @ ys) = (case first_with k xs of None \<Rightarrow> first_with k ys | Some l \<Rightarrow> Some l)"
  by (induction xs) auto

lemma first_index_kept:
  assumes "entries (lookup c) = []"
    and "card (Data ` set ls) \<le> capacity (lookup c)"
  shows "distinct (map fst (entries (lookup (consumed c ls)))) \<and>
         fst ` set (entries (lookup (consumed c ls))) = Data ` set ls \<and>
         map_of (entries (lookup (consumed c ls))) = (\<lambda>k. map_option Index (first_with k ls))"
  using assms(2)
proof (induction ls rule: rev_induct)
  case Nil
  then show ?case using assms(1) by (simp add: consumed_Nil)
next
  case (snoc l ls)
  let ?c = "consumed c ls"
  let ?es = "entries (lookup ?c)"
  have "card (Data ` set ls) \<le> card (Data ` set (ls @ [l]))"
    by (intro card_mono) auto
  then have small: "card (Data ` set ls) \<le> capacity (lookup c)"
    using snoc.prems by simp
  note IH = snoc.IH [OF small]
  from IH have dist: "distinct (map fst ?es)" and keys: "fst ` set ?es = Data ` set ls"
    and mp: "map_of ?es = (\<lambda>k. map_option Index (first_with k ls))"
    by simp_all
  have step: "consumed c (ls @ [l]) = snd (consume ?c l)"
    by (simp add: consumed_append consumed_single)
  show ?case
  proof (cases "map_of ?es (Data l)")
    case (Some v)
    then have mem: "Data l \<in> Data ` set ls"
      using keys by (metis domI dom_map_of_conv_image_fst)
    have es': "entries (lookup (snd (consume ?c l))) =
        (Data l, v) # filter (\<lambda>e. fst e \<noteq> Data l) ?es"
      using Some by (cases "v = Index l") (simp_all add: consume_hit_same consume_hit_other)
    have d': "distinct (map fst ((Data l, v) # filter (\<lambda>e. fst e \<noteq> Data l) ?es))"
      using dist by (auto simp add: distinct_map_filter)
    have "(Data l, v) \<in> set ?es" using Some by (rule map_of_SomeD)
    then have "Data l \<in> fst ` set ?es" by force
    moreover have "fst ` set (filter (\<lambda>e. fst e \<noteq> Data l) ?es) = fst ` set ?es - {Data l}"
      by force
    ultimately have "fst ` set ((Data l, v) # filter (\<lambda>e. fst e \<noteq> Data l) ?es) = fst ` set ?es"
      by auto
    then have k': "fst ` set ((Data l, v) # filter (\<lambda>e. fst e \<noteq> Data l) ?es) = Data ` set (ls @ [l])"
      using keys mem by auto
    have "first_with k (ls @ [l]) = first_with k ls" for k
    proof (cases "first_with k ls")
      case None
      then have "k \<noteq> Data l" using mem by (auto simp add: first_with_None)
      then show ?thesis using None by (simp add: first_with_append)
    next
      case (Some a)
      then show ?thesis by (simp add: first_with_append)
    qed
    then have m': "map_of ((Data l, v) # filter (\<lambda>e. fst e \<noteq> Data l) ?es) =
        (\<lambda>k. map_option Index (first_with k (ls @ [l])))"
      using map_of_move_to_front [OF Some] mp by simp
    show ?thesis
      using d' k' m' by (simp only: step es' simp_thms)
  next
    case None
    then have notin: "Data l \<notin> Data ` set ls"
      using keys by (simp add: map_of_eq_None_iff)
    have "length ?es = card (fst ` set ?es)"
      using dist by (metis distinct_card length_map set_map)
    then have len: "length ?es = card (Data ` set ls)" using keys by simp
    have "card (Data ` set (ls @ [l])) = Suc (card (Data ` set ls))"
      using notin by simp
    then have room: "\<not> length ?es + 1 > capacity (lookup ?c)"
      using snoc.prems len by (simp add: consumed_capacity)
    have es': "entries (lookup (snd (consume ?c l))) = (Data l, Index l) # ?es"
      using None room by (simp add: consume_miss)
    have d': "distinct (map fst ((Data l, Index l) # ?es))"
      using dist notin keys by simp
    have k': "fst ` set ((Data l, Index l) # ?es) = Data ` set (ls @ [l])"
      using keys by auto
    have "map_option Index (first_with k (ls @ [l])) =
        (if k = Data l then Some (Index l) else map_option Index (first_with k ls))" for k
    proof (cases "first_with k ls")
      case None
      then show ?thesis by (simp add: first_with_append)
    next
      case (Some a)
      then have "first_with k ls \<noteq> None" by simp
      then have "k \<in> Data ` set ls" by (simp only: first_with_None not_not)
      then have "k \<noteq> Data l" using notin by blast
      then show ?thesis using Some by (simp add: first_with_append)
    qed
    then have m': "map_of ((Data l, Index l) # ?es) =
        (\<lambda>k. map_option Index (first_with k (ls @ [l])))"
      using mp by (auto simp add: fun_eq_iff)
    show ?thesis
      using d' k' m' by (simp only: step es' simp_thms)
  qed
qed

lemma two_leaves:
  "consumed NewLeafConsumer [\<lparr>Data = d, Index = i\<rparr>, \<lparr>Data = d, Index = j\<rparr>] =
     \<lparr>lookup = \<lparr>capacity = 1024, entries = [(d, i)]\<rparr>,
      duplicateCount = (if i = j then 0 else 1)\<rparr>"
  by (simp add: consumed_def consume_def lru_Get_def lru_Add_def NewLeafConsumer_def lru_New_def)

lemma consume_miss_count:
  "map_of (entries (lookup c)) (Data l) = None \<Longrightarrow>
     duplicateCount (consumed c [l]) = duplicateCount c"
  by (simp add: consumed_single consume_miss)

lemma evicted_then_resubmitted:
  assumes "distinct (map Data ls)" and "d \<notin> Data ` set ls" and "1024 \<le> length ls" and "i \<noteq> j"
  shows "duplicateCount
    (consumed NewLeafConsumer
       ([\<lparr>Data = d, Index = i\<rparr>, \<lparr>Data = d, Index = j\<rparr>] @ ls @ [\<lparr>Data = d, Index = i\<rparr>])) = 1"
proof -
  let ?c = "consumed NewLeafConsumer [\<lparr>Data = d, Index = i\<rparr>, \<lparr>Data = d, Index = j\<rparr>]"
  have c: "?c = \<lparr>lookup = \<lparr>capacity = 1024, entries = [(d, i)]\<rparr>, duplicateCount = 1\<rparr>"
    using assms(4) by (simp add: two_leaves)
  have fresh: "\<forall>l \<in> set ls. Data l \<notin> fst ` set (entries (lookup ?c))"
    using assms(2) by (auto simp add: c)
  have len: "length (entries (lookup ?c)) \<le> capacity (lookup ?c)" by (simp add: c)
  have cap: "capacity (lookup ?c) \<le> length ls" using assms(3) by (simp add: c)
  have gone: "map_of (entries (lookup (consumed ?c ls))) (Data \<lparr>Data = d, Index = i\<rparr>) = None"
    using fresh_leaves_evict(1) [OF assms(1) fresh len cap assms(2)] by simp
  have "duplicateCount (consumed ?c ls) = 1"
    using fresh_leaves_evict(2) [OF assms(1) fresh len cap assms(2)] by (simp add: c)
  then have "duplicateCount (consumed (consumed ?c ls) [\<lparr>Data = d, Index = i\<rparr>]) = 1"
    using consume_miss_count [OF gone] by simp
  then show ?thesis by (simp only: consumed_append)
qed

text \<open>
  C3. With a new consumer: two leaves with the same content and the same index leave
  \<open>duplicateCount\<close> at 0; two leaves with the same content and different indices bring it
  to 1; a leaf whose content is not in the cache (never seen, or evicted) does not change
  the counter, and 1024 leaves with other, pairwise distinct contents do evict an entry,
  so that the content submitted again afterwards is not counted. In general a received
  leaf adds 1 to the counter when the cache holds its content under another index, and
  nothing otherwise; over a sequence the counter grows by the number of such leaves, and
  it does not decrease (the counter has 64 bits: as long as it cannot wrap).
\<close>

theorem duplicateCount_counts_mismatches:
  "duplicateCount (consumed NewLeafConsumer [\<lparr>Data = d, Index = i\<rparr>, \<lparr>Data = d, Index = i\<rparr>]) = 0 \<and>
   (i \<noteq> j \<longrightarrow>
      duplicateCount (consumed NewLeafConsumer [\<lparr>Data = d, Index = i\<rparr>, \<lparr>Data = d, Index = j\<rparr>]) = 1) \<and>
   (map_of (entries (lookup c)) (Data l) = None \<longrightarrow>
      duplicateCount (consumed c [l]) = duplicateCount c) \<and>
   (distinct (map Data ls) \<and> d \<notin> Data ` set ls \<and> 1024 \<le> length ls \<and> i \<noteq> j \<longrightarrow>
      duplicateCount
        (consumed NewLeafConsumer
           ([\<lparr>Data = d, Index = i\<rparr>, \<lparr>Data = d, Index = j\<rparr>] @ ls @ [\<lparr>Data = d, Index = i\<rparr>])) = 1) \<and>
   duplicateCount (consumed c [l]) = duplicateCount c + (if mismatch c l then 1 else 0) \<and>
   duplicateCount (consumed c ls) = duplicateCount c + of_nat (mismatches c ls) \<and>
   (unat (duplicateCount c) + length ls < 2 ^ 64 \<longrightarrow>
      duplicateCount c \<le> duplicateCount (consumed c ls))"
proof (intro conjI impI)
  show "duplicateCount (consumed NewLeafConsumer [\<lparr>Data = d, Index = i\<rparr>, \<lparr>Data = d, Index = i\<rparr>]) = 0"
    by (simp add: two_leaves)
  show "duplicateCount (consumed NewLeafConsumer [\<lparr>Data = d, Index = i\<rparr>, \<lparr>Data = d, Index = j\<rparr>]) = 1"
    if "i \<noteq> j" using that by (simp add: two_leaves)
  show "duplicateCount (consumed c [l]) = duplicateCount c"
    if "map_of (entries (lookup c)) (Data l) = None" using that by (rule consume_miss_count)
  show "duplicateCount
        (consumed NewLeafConsumer
           ([\<lparr>Data = d, Index = i\<rparr>, \<lparr>Data = d, Index = j\<rparr>] @ ls @ [\<lparr>Data = d, Index = i\<rparr>])) = 1"
    if "distinct (map Data ls) \<and> d \<notin> Data ` set ls \<and> 1024 \<le> length ls \<and> i \<noteq> j"
    using that evicted_then_resubmitted by blast
  show "duplicateCount (consumed c [l]) = duplicateCount c + (if mismatch c l then 1 else 0)"
    by (simp only: consumed_single consume_count)
  show "duplicateCount (consumed c ls) = duplicateCount c + of_nat (mismatches c ls)"
    by (rule consumed_count)
  show "duplicateCount c \<le> duplicateCount (consumed c ls)"
    if "unat (duplicateCount c) + length ls < 2 ^ 64" using that by (rule consumed_count_mono)
qed

lemma many_leaves_distinct: "distinct (map Data (many_leaves k))"
proof -
  have "inj_on (\<lambda>i. replicate (Suc i) (CHR ''a'')) (set [0..<k])"
    by (rule inj_onI) (metis length_replicate nat.inject)
  then show ?thesis
    by (simp add: many_leaves_def distinct_map comp_def)
qed

lemma many_leaves_no_x: "''x'' \<notin> Data ` set (many_leaves k)"
  by (auto simp add: many_leaves_def)

theorem duplicateCount_counts_mismatches_witness:
  "(1 :: 64 word) \<noteq> 2 \<and>
   duplicateCount (consumed NewLeafConsumer [\<lparr>Data = ''x'', Index = 1\<rparr>, \<lparr>Data = ''x'', Index = 1\<rparr>]) = 0 \<and>
   duplicateCount (consumed NewLeafConsumer [\<lparr>Data = ''x'', Index = 1\<rparr>, \<lparr>Data = ''x'', Index = 2\<rparr>]) = 1 \<and>
   map_of (entries (lookup NewLeafConsumer)) ''x'' = None \<and>
   duplicateCount (consumed NewLeafConsumer [\<lparr>Data = ''x'', Index = 1\<rparr>]) = 0 \<and>
   distinct (map Data (many_leaves 1024)) \<and> ''x'' \<notin> Data ` set (many_leaves 1024) \<and>
   1024 \<le> length (many_leaves 1024) \<and>
   duplicateCount
     (consumed NewLeafConsumer
        ([\<lparr>Data = ''x'', Index = 1\<rparr>, \<lparr>Data = ''x'', Index = 2\<rparr>] @ many_leaves 1024 @
         [\<lparr>Data = ''x'', Index = 1\<rparr>])) = 1 \<and>
   unat (duplicateCount NewLeafConsumer) + length (many_leaves 1024) < 2 ^ 64 \<and>
   duplicateCount NewLeafConsumer \<le> duplicateCount (consumed NewLeafConsumer (many_leaves 1024))"
proof -
  note T = duplicateCount_counts_mismatches
        [of "''x''" 1 2 NewLeafConsumer "\<lparr>Data = ''x'', Index = 1\<rparr>" "many_leaves 1024"]
  have w: "(1 :: 64 word) \<noteq> 2" by simp
  have z: "duplicateCount NewLeafConsumer = 0" by (simp add: NewLeafConsumer_def)
  have e: "map_of (entries (lookup NewLeafConsumer)) ''x'' = None"
    by (simp add: NewLeafConsumer_def lru_New_def)
  have len: "1024 \<le> length (many_leaves 1024)" by (simp add: many_leaves_def)
  have small: "unat (duplicateCount NewLeafConsumer) + length (many_leaves 1024) < 2 ^ 64"
    by (simp add: NewLeafConsumer_def many_leaves_def)
  have "duplicateCount (consumed NewLeafConsumer [\<lparr>Data = ''x'', Index = 1\<rparr>]) =
      duplicateCount NewLeafConsumer"
    using T e by simp
  then have one: "duplicateCount (consumed NewLeafConsumer [\<lparr>Data = ''x'', Index = 1\<rparr>]) = 0"
    by (simp only: z)
  have evict: "duplicateCount
     (consumed NewLeafConsumer
        ([\<lparr>Data = ''x'', Index = 1\<rparr>, \<lparr>Data = ''x'', Index = 2\<rparr>] @ many_leaves 1024 @
         [\<lparr>Data = ''x'', Index = 1\<rparr>])) = 1"
    using T w len many_leaves_distinct [of 1024] many_leaves_no_x [of 1024] by blast
  have mono: "duplicateCount NewLeafConsumer \<le> duplicateCount (consumed NewLeafConsumer (many_leaves 1024))"
    using T small by blast
  have same: "duplicateCount (consumed NewLeafConsumer [\<lparr>Data = ''x'', Index = 1\<rparr>, \<lparr>Data = ''x'', Index = 1\<rparr>]) = 0"
    using T by blast
  have other: "duplicateCount (consumed NewLeafConsumer [\<lparr>Data = ''x'', Index = 1\<rparr>, \<lparr>Data = ''x'', Index = 2\<rparr>]) = 1"
    using T w by blast
  show ?thesis
    using w same other e one many_leaves_distinct [of 1024] many_leaves_no_x [of 1024] len evict
      small mono
    by blast
qed

text \<open>
  C8, as amended. After a new consumer has processed any sequence of leaves, every entry
  of the cache is the content and the index of a processed leaf. A leaf whose content is
  in the cache does not change the index stored for it: the cache keeps the index of the
  leaf that inserted the entry, not of the last leaf seen. As long as the leaves bear at
  most 1024 different contents (nothing is evicted), the cache maps every content to the
  index of the first leaf that bears it.
\<close>

theorem cache_keeps_inserting_index:
  "set (entries (lookup (consumed NewLeafConsumer ls))) \<subseteq> (\<lambda>l. (Data l, Index l)) ` set ls \<and>
   (map_of (entries (lookup c)) (Data l) = Some v \<longrightarrow>
      map_of (entries (lookup (consumed c [l]))) (Data l) = Some v) \<and>
   (card (Data ` set ls) \<le> 1024 \<longrightarrow>
      map_of (entries (lookup (consumed NewLeafConsumer ls))) =
        (\<lambda>k. map_option Index (first_with k ls)))"
proof (intro conjI impI)
  show "set (entries (lookup (consumed NewLeafConsumer ls))) \<subseteq> (\<lambda>l. (Data l, Index l)) ` set ls"
    using consumed_entries_subset [of NewLeafConsumer ls]
    by (simp add: NewLeafConsumer_def lru_New_def)
  show "map_of (entries (lookup (consumed c [l]))) (Data l) = Some v"
    if "map_of (entries (lookup c)) (Data l) = Some v"
    using that by (simp add: consumed_single consume_hit_keeps_index)
  show "map_of (entries (lookup (consumed NewLeafConsumer ls))) =
        (\<lambda>k. map_option Index (first_with k ls))"
    if "card (Data ` set ls) \<le> 1024"
    using that first_index_kept [of NewLeafConsumer ls]
    by (simp add: NewLeafConsumer_def lru_New_def)
qed

theorem cache_keeps_inserting_index_witness:
  "map_of (entries (lookup (consumed NewLeafConsumer [\<lparr>Data = ''x'', Index = 1\<rparr>]))) ''x'' = Some 1 \<and>
   map_of (entries (lookup (consumed (consumed NewLeafConsumer [\<lparr>Data = ''x'', Index = 1\<rparr>])
      [\<lparr>Data = ''x'', Index = 2\<rparr>]))) ''x'' = Some 1 \<and>
   card (Data ` set [\<lparr>Data = ''x'', Index = 1\<rparr>, \<lparr>Data = ''y'', Index = 2\<rparr>, \<lparr>Data = ''x'', Index = 3\<rparr>]) \<le> 1024 \<and>
   map_of (entries (lookup (consumed NewLeafConsumer
      [\<lparr>Data = ''x'', Index = 1\<rparr>, \<lparr>Data = ''y'', Index = 2\<rparr>, \<lparr>Data = ''x'', Index = 3\<rparr>]))) ''x'' = Some 1"
proof -
  have first: "map_of (entries (lookup (consumed NewLeafConsumer [\<lparr>Data = ''x'', Index = 1\<rparr>]))) ''x'' = Some 1"
    by (simp add: consumed_def consume_def lru_Get_def lru_Add_def NewLeafConsumer_def lru_New_def)
  have small: "card (Data ` set [\<lparr>Data = ''x'', Index = 1\<rparr>, \<lparr>Data = ''y'', Index = 2\<rparr>, \<lparr>Data = ''x'', Index = 3\<rparr>]) \<le> 1024"
    by (simp add: card_insert_if)
  have hit: "map_of (entries (lookup (consumed (consumed NewLeafConsumer [\<lparr>Data = ''x'', Index = 1\<rparr>])
      [\<lparr>Data = ''x'', Index = 2\<rparr>]))) ''x'' = Some 1"
    using first cache_keeps_inserting_index
      [of "[]" "consumed NewLeafConsumer [\<lparr>Data = ''x'', Index = 1\<rparr>]" "\<lparr>Data = ''x'', Index = 2\<rparr>" 1]
    by simp
  have "map_of (entries (lookup (consumed NewLeafConsumer
      [\<lparr>Data = ''x'', Index = 1\<rparr>, \<lparr>Data = ''y'', Index = 2\<rparr>, \<lparr>Data = ''x'', Index = 3\<rparr>]))) =
      (\<lambda>k. map_option Index (first_with k
        [\<lparr>Data = ''x'', Index = 1\<rparr>, \<lparr>Data = ''y'', Index = 2\<rparr>, \<lparr>Data = ''x'', Index = 3\<rparr>]))"
    using small cache_keeps_inserting_index
      [of "[\<lparr>Data = ''x'', Index = 1\<rparr>, \<lparr>Data = ''y'', Index = 2\<rparr>, \<lparr>Data = ''x'', Index = 3\<rparr>]"]
    by blast
  then have "map_of (entries (lookup (consumed NewLeafConsumer
      [\<lparr>Data = ''x'', Index = 1\<rparr>, \<lparr>Data = ''y'', Index = 2\<rparr>, \<lparr>Data = ''x'', Index = 3\<rparr>]))) ''x'' = Some 1"
    by simp
  with first hit small show ?thesis by blast
qed

theorem cache_last_seen_counterexample:
  "map_of (entries (lookup (consumed NewLeafConsumer
      [\<lparr>Data = ''x'', Index = 1\<rparr>, \<lparr>Data = ''x'', Index = 2\<rparr>]))) ''x'' = Some 1 \<and>
   Index (last [\<lparr>Data = ''x'', Index = 1\<rparr>, \<lparr>Data = ''x'', Index = 2\<rparr>]) = 2 \<and>
   (1 :: 64 word) \<noteq> 2"
  by (simp add: two_leaves)

subsection \<open>Throttle: the step in float64\<close>

lemma bit_len_upper: "k < 2 ^ bit_len k"
proof (induction k rule: bit_len.induct)
  case (1 k)
  show ?case
  proof (cases "k = 0")
    case True
    then show ?thesis by (simp add: bit_len.simps)
  next
    case False
    then have "k div 2 < 2 ^ bit_len (k div 2)" using 1 by simp
    then have "k < 2 * 2 ^ bit_len (k div 2)" by linarith
    then show ?thesis using False by (subst bit_len.simps) simp
  qed
qed

lemma bit_len_le: "k < 2 ^ n \<Longrightarrow> bit_len k \<le> n"
proof (induction k arbitrary: n rule: bit_len.induct)
  case (1 k)
  show ?case
  proof (cases "k = 0")
    case True
    then show ?thesis by (simp add: bit_len.simps)
  next
    case False
    then obtain n' where n: "n = Suc n'" using "1.prems" by (cases n) auto
    then have "k div 2 < 2 ^ n'" using "1.prems" by simp
    then have "bit_len (k div 2) \<le> n'" using 1 False by simp
    then show ?thesis using False n by (subst bit_len.simps) simp
  qed
qed

lemma round53_exact: "m < 2 ^ 53 \<Longrightarrow> round53 m = m"
  using bit_len_le [of m 53] by (simp add: round53_def)

text \<open>The rounded number is a multiple of the unit and at most half a unit away.\<close>

lemma round53_lower: "(m div 2 ^ (bit_len m - 53)) * 2 ^ (bit_len m - 53) \<le> round53 m"
  by (simp add: round53_def Let_def)

lemma round_up_bound:
  "(p::nat) \<le> 2 * r \<Longrightarrow> 2 * ((q + 1) * p) \<le> 2 * (q * p + r) + p"
  by (simp add: algebra_simps)

lemma round53_upper: "2 * round53 m \<le> 2 * m + 2 ^ (bit_len m - 53)"
proof -
  let ?s = "bit_len m - 53"
  let ?q = "m div 2 ^ ?s"
  let ?r = "m mod 2 ^ ?s"
  have m: "?q * 2 ^ ?s + ?r = m" by (rule div_mult_mod_eq)
  show ?thesis
  proof (cases "2 * ?r > 2 ^ ?s \<or> (2 * ?r = 2 ^ ?s \<and> odd ?q)")
    case True
    then have up: "round53 m = (?q + 1) * 2 ^ ?s" by (simp add: round53_def Let_def)
    from True have "2 ^ ?s \<le> 2 * ?r" by auto
    then have "2 * ((?q + 1) * 2 ^ ?s) \<le> 2 * (?q * 2 ^ ?s + ?r) + 2 ^ ?s"
      by (rule round_up_bound)
    then have "2 * round53 m \<le> 2 * (?q * 2 ^ ?s + ?r) + 2 ^ ?s"
      by (simp only: up)
    then show ?thesis by (simp only: m)
  next
    case False
    then have "round53 m = ?q * 2 ^ ?s" by (simp add: round53_def Let_def)
    then have "round53 m \<le> m" using m by linarith
    then show ?thesis by linarith
  qed
qed


lemma ten_tenths: "10 * tenth = 2 ^ 55 + 2"
  by (simp add: tenth_def)

lemma times_tenth_bounds:
  assumes "n < 3 * 2 ^ 51"
  shows "(n div 10) * 2 ^ 55 \<le> round53 (n * tenth)"
    and "round53 (n * tenth) < (n div 10 + 1) * 2 ^ 55"
proof -
  define N where "N = n * tenth"
  define s where "s = bit_len N - 53"
  define k where "k = n div 10"
  define j where "j = n mod 10"
  define P where "P = (2::nat) ^ s"
  define R where "R = round53 N"
  have n: "n = 10 * k + j" by (simp add: k_def j_def)
  have j: "j \<le> 9" by (simp add: j_def)
  have bound: "n < 6755399441055744" using assms by simp
  have "10 * N = (10 * tenth) * n" by (simp add: N_def)
  then have ten: "10 * N = 36028797018963970 * n" by (simp only: ten_tenths) simp
  have "N < 40564819207303340847894502572032" using ten bound by linarith
  then have "N < 2 ^ 105" by simp
  then have "bit_len N \<le> 105" by (rule bit_len_le)
  then have s: "s \<le> 52" by (simp add: s_def)
  then have "(2::nat) ^ s \<le> 2 ^ 52" by (intro power_increasing) simp_all
  then have P: "P \<le> 4503599627370496" by (simp add: P_def)
  have below: "k * 36028797018963968 \<le> N" using ten n by linarith
  have split: "k * 2 ^ 55 = (k * 2 ^ (55 - s)) * 2 ^ s"
    using s by (simp add: mult.assoc power_add [symmetric])
  have "(k * 2 ^ (55 - s)) * 2 ^ s \<le> N" using below by (simp only: split [symmetric]) simp
  then have "k * 2 ^ (55 - s) \<le> N div 2 ^ s"
    by (simp add: less_eq_div_iff_mult_less_eq)
  then have "(k * 2 ^ (55 - s)) * 2 ^ s \<le> (N div 2 ^ s) * 2 ^ s"
    by (rule mult_le_mono1)
  then have "k * 2 ^ 55 \<le> (N div 2 ^ s) * 2 ^ s"
    by (simp only: split)
  then have low: "k * 2 ^ 55 \<le> R"
    using round53_lower [of N] unfolding R_def s_def by (rule le_trans)
  have up: "2 * R \<le> 2 * N + P"
    unfolding R_def P_def s_def by (rule round53_upper)
  have "10 * R \<le> 10 * N + 5 * P" using up by linarith
  then have "10 * R \<le> 36028797018963970 * n + 5 * P" using ten by linarith
  then have "10 * R \<le> 36028797018963968 * n + (2 * n + 5 * P)" by linarith
  moreover have "2 * n + 5 * P < 36028797018963968" using bound P by linarith
  moreover have "36028797018963968 * n \<le> 36028797018963968 * (10 * k + 9)"
    using n j by simp
  ultimately have "10 * R < 36028797018963968 * (10 * k + 9) + 36028797018963968"
    by linarith
  then have high: "R < (k + 1) * 36028797018963968" by simp
  show "(n div 10) * 2 ^ 55 \<le> round53 (n * tenth)"
    using low by (simp add: R_def N_def k_def)
  show "round53 (n * tenth) < (n div 10 + 1) * 2 ^ 55"
    using high by (simp add: R_def N_def k_def)
qed

lemma step_of_nonpositive: "n \<le> 0 \<Longrightarrow> step_of n = 1"
proof -
  assume n: "n \<le> 0"
  have "float64_of_int n \<le> 0"
    using n by (simp add: float64_of_int_def sgn_if)
  then have "times_tenth (float64_of_int n) \<le> 0"
    by (simp add: times_tenth_def sgn_if)
  then have "times_tenth (float64_of_int n) < 2 ^ 55"
    by (rule le_less_trans) simp
  then show ?thesis
    by (simp add: step_of_def Let_def trunc55_def)
qed

lemma step_of_positive:
  assumes "0 < n" and "n < 3 * 2 ^ 51"
  shows "step_of n = max 1 (n div 10)"
proof -
  define m where "m = nat n"
  define R where "R = round53 (m * tenth)"
  define k where "k = m div 10"
  have n: "n = int m" using assms(1) by (simp add: m_def)
  have m: "0 < m" "m < 3 * 2 ^ 51" using assms by (simp_all add: m_def)
  then have "m < 2 ^ 53" by simp
  then have "round53 m = m" by (rule round53_exact)
  then have fl: "float64_of_int n = int m"
    using m(1) by (simp add: float64_of_int_def n)
  have tt: "times_tenth (int m) = int R"
    using m(1) by (simp add: times_tenth_def R_def)
  have low: "k * 2 ^ 55 \<le> R" and high: "R < (k + 1) * 2 ^ 55"
    using times_tenth_bounds [OF m(2)] by (simp_all add: R_def k_def)
  have "R div 2 ^ 55 = k"
    using low high by (intro div_nat_eqI) (simp_all add: mult.commute)
  then have quot: "R div 36028797018963968 = k" by simp
  have kdiv: "n div 10 = int k" by (simp add: n k_def zdiv_int)
  show ?thesis
  proof (cases "k = 0")
    case True
    then have "int R < 2 ^ 55" using high by simp
    then show ?thesis
      using True by (simp add: step_of_def Let_def fl tt trunc55_def kdiv)
  next
    case False
    then have "2 ^ 55 \<le> R" using low by (cases k) simp_all
    then have ge: "\<not> int R < 2 ^ 55" by simp
    have "trunc55 (int R) = int (R div 2 ^ 55)"
      by (simp add: trunc55_def sgn_if zdiv_int)
    then show ?thesis
      using False ge by (simp add: step_of_def Let_def fl tt quot kdiv)
  qed
qed

lemma step_of_small: "n < 3 * 2 ^ 51 \<Longrightarrow> step_of n = max 1 (n div 10)"
proof (cases "0 < n")
  case True
  assume "n < 3 * 2 ^ 51"
  with True show ?thesis by (rule step_of_positive)
next
  case False
  then have "n div 10 \<le> 0" by simp
  then show ?thesis using False by (simp add: step_of_nonpositive)
qed

lemma wrap64_id: "- (2 ^ 63) \<le> x \<Longrightarrow> x < 2 ^ 63 \<Longrightarrow> wrap64 x = x"
  by (simp add: wrap64_def)

subsection \<open>Throttle: Increase and Decrease\<close>

lemma Increase_rate_small:
  assumes "- (2 ^ 63) \<le> opsPerSecond t" and "opsPerSecond t < 3 * 2 ^ 51"
  shows "opsPerSecond (Increase t) = opsPerSecond t + max 1 (opsPerSecond t div 10)"
proof -
  let ?r = "opsPerSecond t"
  have step: "step_of ?r = max 1 (?r div 10)" using assms(2) by (rule step_of_small)
  have "?r div 10 < 2 ^ 51" using assms(2) by simp
  then have "- (2 ^ 63) \<le> ?r + max 1 (?r div 10)" "?r + max 1 (?r div 10) < 2 ^ 63"
    using assms by simp_all
  then have "wrap64 (?r + max 1 (?r div 10)) = ?r + max 1 (?r div 10)" by (rule wrap64_id)
  then show ?thesis by (simp add: Increase_def Let_def step)
qed

lemma Decrease_noop: "opsPerSecond t \<le> 1 \<Longrightarrow> Decrease t = t"
  by (simp add: Decrease_def)

lemma Decrease_rate_small:
  assumes "1 < opsPerSecond t" and "opsPerSecond t < 3 * 2 ^ 51"
  shows "opsPerSecond (Decrease t) = opsPerSecond t - max 1 (opsPerSecond t div 10)"
proof -
  let ?r = "opsPerSecond t"
  have step: "step_of ?r = max 1 (?r div 10)" using assms(2) by (rule step_of_small)
  have "0 \<le> ?r div 10" "?r div 10 \<le> ?r" using assms(1) by simp_all
  then have "- (2 ^ 63) \<le> ?r - max 1 (?r div 10)" "?r - max 1 (?r div 10) < 2 ^ 63"
    using assms by simp_all
  then have "wrap64 (?r - max 1 (?r div 10)) = ?r - max 1 (?r div 10)" by (rule wrap64_id)
  then show ?thesis using assms(1) by (simp add: Decrease_def Let_def step)
qed

lemma bit_len_lower: "0 < k \<Longrightarrow> 2 ^ (bit_len k - 1) \<le> k"
proof (induction k rule: bit_len.induct)
  case (1 k)
  show ?case
  proof (cases "k div 2 = 0")
    case True
    then have "bit_len k = 1"
      using "1.prems" by (subst bit_len.simps) (simp add: bit_len.simps [of 0])
    then show ?thesis using "1.prems" by simp
  next
    case False
    then have pos: "0 < k div 2" by simp
    then have IH: "2 ^ (bit_len (k div 2) - 1) \<le> k div 2"
      using 1 by simp
    have "0 < bit_len (k div 2)"
      using pos by (subst bit_len.simps) simp
    then have "(2::nat) ^ bit_len (k div 2) = 2 * 2 ^ (bit_len (k div 2) - 1)"
      by (cases "bit_len (k div 2)") simp_all
    then have "(2::nat) ^ bit_len (k div 2) \<le> k" using IH by linarith
    moreover have "bit_len k - 1 = bit_len (k div 2)"
      using "1.prems" by (subst bit_len.simps) simp
    ultimately show ?thesis by simp
  qed
qed

lemma round53_le_double: "round53 m \<le> 2 * m"
proof (cases "m = 0")
  case True
  then show ?thesis by (simp add: round53_def bit_len.simps [of 0])
next
  case False
  then have m: "0 < m" by simp
  have "(2::nat) ^ (bit_len m - 53) \<le> 2 ^ (bit_len m - 1)"
    by (intro power_increasing) simp_all
  also have "\<dots> \<le> m" using m by (rule bit_len_lower)
  finally have "(2::nat) ^ (bit_len m - 53) \<le> m" .
  then show ?thesis using round53_upper [of m] by linarith
qed

lemma step_of_ge_1: "1 \<le> step_of r"
proof -
  define d where "d = times_tenth (float64_of_int r)"
  show ?thesis
  proof (cases "d < 2 ^ 55")
    case True
    then show ?thesis by (simp add: step_of_def Let_def d_def [symmetric] trunc55_def)
  next
    case False
    then have d: "2 ^ 55 \<le> d" by simp
    then have "1 \<le> d div 2 ^ 55"
      by (simp add: pos_imp_zdiv_pos_iff)
    then show ?thesis
      using d False by (simp add: step_of_def Let_def d_def [symmetric] trunc55_def sgn_if)
  qed
qed

lemma step_of_le_half:
  assumes "0 < r"
  shows "step_of r \<le> max 1 (r div 2)"
proof -
  define m where "m = nat r"
  define x where "x = round53 m"
  define R where "R = round53 (x * tenth)"
  have r: "r = int m" and m: "0 < m" using assms by (simp_all add: m_def)
  have fl: "float64_of_int r = int x"
    using m by (simp add: float64_of_int_def r x_def)
  have x: "x \<le> 2 * m" unfolding x_def by (rule round53_le_double)
  have "R \<le> 2 * (x * tenth)" unfolding R_def by (rule round53_le_double)
  also have "\<dots> \<le> 2 * ((2 * m) * tenth)" using x by simp
  also have "\<dots> = m * 14411518807585588" by (simp add: tenth_def)
  also have "\<dots> \<le> m * 2 ^ 54" by simp
  finally have "R \<le> m * 2 ^ 54" .
  then have "R div 2 ^ 55 \<le> (m * 2 ^ 54) div 2 ^ 55" by (rule div_le_mono)
  also have "(m * 2 ^ 54) div 2 ^ 55 = m div 2" by simp
  finally have half: "R div 2 ^ 55 \<le> m div 2" .
  have tt: "times_tenth (int x) = (if x = 0 then 0 else int R)"
    by (simp add: times_tenth_def R_def)
  have quot: "int R div 2 ^ 55 = int (R div 2 ^ 55)" by (simp add: zdiv_int)
  have rdiv: "r div 2 = int (m div 2)" by (simp add: r zdiv_int)
  show ?thesis
  proof (cases "x = 0 \<or> int R < 2 ^ 55")
    case True
    then have "step_of r = 1"
      by (auto simp add: step_of_def Let_def fl tt trunc55_def)
    then show ?thesis by simp
  next
    case False
    then have "step_of r = int (R div 2 ^ 55)"
      using quot by (simp add: step_of_def Let_def fl tt trunc55_def sgn_if)
    then show ?thesis using half rdiv by simp
  qed
qed

lemma Increase_keeps_positive:
  assumes "0 < opsPerSecond t" and "opsPerSecond t < 2 ^ 62"
  shows "0 < opsPerSecond (Increase t)"
proof -
  let ?r = "opsPerSecond t"
  have lo: "1 \<le> step_of ?r" by (rule step_of_ge_1)
  have "step_of ?r \<le> max 1 (?r div 2)" using assms(1) by (rule step_of_le_half)
  then have hi: "?r + step_of ?r < 2 ^ 63" using assms by simp
  have "- (2 ^ 63) \<le> ?r + step_of ?r" using assms(1) lo by simp
  then have "wrap64 (?r + step_of ?r) = ?r + step_of ?r" using hi by (rule wrap64_id)
  then show ?thesis using assms(1) lo by (simp add: Increase_def Let_def)
qed

lemma Decrease_keeps_positive:
  assumes "0 < opsPerSecond t" and "opsPerSecond t < 2 ^ 62"
  shows "0 < opsPerSecond (Decrease t)"
proof (cases "opsPerSecond t \<le> 1")
  case True
  then show ?thesis using assms(1) by (simp add: Decrease_noop)
next
  case False
  let ?r = "opsPerSecond t"
  have lo: "1 \<le> step_of ?r" by (rule step_of_ge_1)
  have "step_of ?r \<le> max 1 (?r div 2)" using assms(1) by (rule step_of_le_half)
  then have hi: "step_of ?r < ?r" using False by simp
  have "- (2 ^ 63) \<le> ?r - step_of ?r" "?r - step_of ?r < 2 ^ 63"
    using assms hi lo by simp_all
  then have "wrap64 (?r - step_of ?r) = ?r - step_of ?r" by (rule wrap64_id)
  then show ?thesis using False hi by (simp add: Decrease_def Let_def)
qed

lemma call_keeps_positive:
  assumes "0 < opsPerSecond t" and "opsPerSecond t < 2 ^ 62"
  shows "0 < opsPerSecond (call c t)"
  using assms by (cases c) (simp_all add: Increase_keeps_positive Decrease_keeps_positive)

lemma rates_stay_positive:
  assumes "\<forall>r \<in> set (rates t calls). r < 2 ^ 62" and "0 < opsPerSecond t"
  shows "\<forall>r \<in> set (rates t calls). 1 \<le> r"
  using assms
proof (induction calls arbitrary: t)
  case Nil
  then show ?case by simp
next
  case (Cons c cs)
  have small: "opsPerSecond t < 2 ^ 62" using Cons.prems(1) by simp
  have pos: "0 < opsPerSecond (call c t)"
    using Cons.prems(2) small by (rule call_keeps_positive)
  have "\<forall>r \<in> set (rates (call c t) cs). r < 2 ^ 62" using Cons.prems(1) by simp
  then have "\<forall>r \<in> set (rates (call c t) cs). 1 \<le> r" using pos by (rule Cons.IH)
  then show ?case using Cons.prems(2) by simp
qed

text \<open>
  C2, as amended. Over every sequence of calls of \<^verbatim>\<open>Increase\<close> and \<^verbatim>\<open>Decrease\<close> along
  which the rate stays below \<open>2 ^ 62\<close> (so that the 64-bit sum cannot wrap): once the rate
  is positive it is at least 1 after every call. \<^verbatim>\<open>Decrease\<close> at a rate of at most 1
  changes nothing, at any rate. While the rate is below \<open>3 * 2 ^ 51 = 6755399441055744\<close>
  (where the rounding of float64 does not reach the integer part), a \<^verbatim>\<open>Decrease\<close> at a
  rate above 1 subtracts \<open>max 1 (rate div 10)\<close>, and an \<^verbatim>\<open>Increase\<close> adds
  \<open>max 1 (rate div 10)\<close>.
\<close>

theorem rate_stays_positive:
  "((\<forall>r \<in> set (rates t calls). r < 2 ^ 62) \<and> 0 < opsPerSecond t \<longrightarrow>
      (\<forall>r \<in> set (rates t calls). 1 \<le> r)) \<and>
   (opsPerSecond t \<le> 1 \<longrightarrow> Decrease t = t) \<and>
   (1 < opsPerSecond t \<and> opsPerSecond t < 3 * 2 ^ 51 \<longrightarrow>
      opsPerSecond (Decrease t) = opsPerSecond t - max 1 (opsPerSecond t div 10)) \<and>
   (- (2 ^ 63) \<le> opsPerSecond t \<and> opsPerSecond t < 3 * 2 ^ 51 \<longrightarrow>
      opsPerSecond (Increase t) = opsPerSecond t + max 1 (opsPerSecond t div 10))"
  using rates_stay_positive Decrease_noop Decrease_rate_small Increase_rate_small
  by blast

lemma demo_rates:
  "rates \<lparr>opsPerSecond = 20, tokenChan = \<lparr>chan_cap = 20, chan_len = 0\<rparr>, oversupply = 0\<rparr>
     [CallIncrease, CallDecrease, CallDecrease] = [20, 22, 20, 18]"
  by (simp add: Increase_def Decrease_def Let_def step_of_small wrap64_def)

theorem rate_stays_positive_witness:
  "rates \<lparr>opsPerSecond = 20, tokenChan = \<lparr>chan_cap = 20, chan_len = 0\<rparr>, oversupply = 0\<rparr>
     [CallIncrease, CallDecrease, CallDecrease] = [20, 22, 20, 18] \<and>
   list_all (\<lambda>r. r < 2 ^ 62) [20, 22, 20, 18 :: int] \<and> (0 :: int) < 20 \<and>
   list_all (\<lambda>r. 1 \<le> r)
     (rates \<lparr>opsPerSecond = 20, tokenChan = \<lparr>chan_cap = 20, chan_len = 0\<rparr>, oversupply = 0\<rparr>
        [CallIncrease, CallDecrease, CallDecrease]) \<and>
   (1 :: int) < 20 \<and> (20 :: int) < 3 * 2 ^ 51 \<and>
   opsPerSecond (Decrease \<lparr>opsPerSecond = 20, tokenChan = \<lparr>chan_cap = 20, chan_len = 0\<rparr>, oversupply = 0\<rparr>) = 18 \<and>
   opsPerSecond (Increase \<lparr>opsPerSecond = 20, tokenChan = \<lparr>chan_cap = 20, chan_len = 0\<rparr>, oversupply = 0\<rparr>) = 22 \<and>
   Decrease \<lparr>opsPerSecond = 1, tokenChan = \<lparr>chan_cap = 20, chan_len = 0\<rparr>, oversupply = 0\<rparr> =
     \<lparr>opsPerSecond = 1, tokenChan = \<lparr>chan_cap = 20, chan_len = 0\<rparr>, oversupply = 0\<rparr>"
proof -
  let ?t = "\<lparr>opsPerSecond = 20, tokenChan = \<lparr>chan_cap = 20, chan_len = 0\<rparr>, oversupply = 0\<rparr>"
  let ?u = "\<lparr>opsPerSecond = 1, tokenChan = \<lparr>chan_cap = 20, chan_len = 0\<rparr>, oversupply = 0\<rparr>"
  let ?cs = "[CallIncrease, CallDecrease, CallDecrease]"
  have r: "rates ?t ?cs = [20, 22, 20, 18]" by (rule demo_rates)
  have small: "\<forall>r \<in> set (rates ?t ?cs). r < 2 ^ 62" by (simp only: r) simp
  note T = rate_stays_positive [of ?t ?cs]
  have pos: "\<forall>r \<in> set (rates ?t ?cs). 1 \<le> r" using T small by simp
  have dec: "opsPerSecond (Decrease ?t) = 18" using T by simp
  have inc: "opsPerSecond (Increase ?t) = 22" using T by simp
  have noop: "Decrease ?u = ?u" using rate_stays_positive [of ?u "[]"] by simp
  have "list_all (\<lambda>r. 1 \<le> r) (rates ?t ?cs)" using pos by (simp only: list_all_iff)
  moreover have "list_all (\<lambda>r. r < 2 ^ 62) [20, 22, 20, 18 :: int]" by simp
  ultimately show ?thesis using r dec inc noop by simp
qed

text \<open>Evaluation of \<open>bit_len\<close> on binary numerals.\<close>

lemma bit_len_double: "0 < k \<Longrightarrow> bit_len (2 * k) = Suc (bit_len k)"
  by (subst bit_len.simps) simp

lemma bit_len_double_plus: "bit_len (2 * k + 1) = Suc (bit_len k)"
  by (subst bit_len.simps) simp

lemma bit_len_One: "bit_len (Suc 0) = 1"
  by (subst bit_len.simps) (simp add: bit_len.simps [of 0])

lemma bit_len_Bit0: "bit_len (numeral (Num.Bit0 w)) = 1 + bit_len (numeral w)"
proof -
  have "numeral (Num.Bit0 w) = 2 * (numeral w :: nat)"
    by (subst numeral_Bit0) (rule mult_2 [symmetric])
  then have "bit_len (numeral (Num.Bit0 w)) = bit_len (2 * numeral w)"
    by (rule arg_cong)
  also have "\<dots> = Suc (bit_len (numeral w))"
    by (rule bit_len_double) (rule zero_less_numeral)
  finally show ?thesis by (simp only: plus_1_eq_Suc)
qed

lemma bit_len_Bit1: "bit_len (numeral (Num.Bit1 w)) = 1 + bit_len (numeral w)"
proof -
  have "numeral (Num.Bit1 w) = 2 * (numeral w :: nat) + 1"
    by (subst numeral_Bit1) (simp only: mult_2 [symmetric])
  then have "bit_len (numeral (Num.Bit1 w)) = bit_len (2 * numeral w + 1)"
    by (rule arg_cong)
  also have "\<dots> = Suc (bit_len (numeral w))"
    by (rule bit_len_double_plus)
  finally show ?thesis by (simp only: plus_1_eq_Suc)
qed

lemmas step_eval = step_of_def float64_of_int_def times_tenth_def trunc55_def round53_def
  tenth_def Let_def bit_len_One bit_len_Bit0 bit_len_Bit1

lemma climb_numeral: "climb (numeral k) r = climb (pred_numeral k) (next_rate r)"
  by (simp add: numeral_eq_Suc)

lemma climb_add: "climb (j + k) r = climb k (climb j r)"
  by (induction j arbitrary: r) simp_all

lemma next_rate_small:
  "- (2 ^ 63) \<le> r \<Longrightarrow> r < 3 * 2 ^ 51 \<Longrightarrow> next_rate r = r + max 1 (r div 10)"
  by (simp add: next_rate_def step_of_small wrap64_id)

lemma Increase_next_rate: "opsPerSecond (Increase t) = next_rate (opsPerSecond t)"
  by (simp add: Increase_def next_rate_def Let_def)

lemma rate_calls_climb:
  "opsPerSecond (rate_calls t (replicate k CallIncrease)) = climb k (opsPerSecond t)"
  by (induction k arbitrary: t) (simp_all add: Increase_next_rate)

text \<open>
  From the rate 20, the default of \<^verbatim>\<open>max_read_ops\<close>: 354 calls of \<^verbatim>\<open>Increase\<close> follow
  the closed form, 76 more are computed in float64, and the last of them wraps the sum.
\<close>

lemma climb_below: "climb 354 20 = 7224139428536148"
  by (simp add: climb_numeral next_rate_small)

lemma climb_above: "climb 76 7224139428536148 = - 8339559622095065790"
  by (simp add: climb_numeral next_rate_def wrap64_def step_eval)

lemma climb_430: "climb 430 20 = - 8339559622095065790"
proof -
  have "climb (354 + 76) 20 = climb 76 (climb 354 20)" by (rule climb_add)
  then show ?thesis by (simp add: climb_below climb_above)
qed

theorem rate_overflow_counterexample:
  "NewThrottle 20 =
     Inr \<lparr>opsPerSecond = 20, tokenChan = \<lparr>chan_cap = 20, chan_len = 0\<rparr>, oversupply = 0\<rparr> \<and>
   opsPerSecond (rate_calls
     \<lparr>opsPerSecond = 20, tokenChan = \<lparr>chan_cap = 20, chan_len = 0\<rparr>, oversupply = 0\<rparr>
     (replicate 430 CallIncrease)) = - 8339559622095065790 \<and>
   opsPerSecond (Decrease
     \<lparr>opsPerSecond = 6755399441055749, tokenChan = \<lparr>chan_cap = 20, chan_len = 0\<rparr>, oversupply = 0\<rparr>) =
     6755399441055749 - 675539944105575 \<and>
   max 1 ((6755399441055749 :: int) div 10) = 675539944105574"
proof -
  have new: "NewThrottle 20 =
      Inr \<lparr>opsPerSecond = 20, tokenChan = \<lparr>chan_cap = 20, chan_len = 0\<rparr>, oversupply = 0\<rparr>"
    by (simp add: NewThrottle_def)
  have up: "opsPerSecond (rate_calls
      \<lparr>opsPerSecond = 20, tokenChan = \<lparr>chan_cap = 20, chan_len = 0\<rparr>, oversupply = 0\<rparr>
      (replicate 430 CallIncrease)) = - 8339559622095065790"
    by (simp only: rate_calls_climb Throttle.simps climb_430)
  have step: "step_of 6755399441055749 = 675539944105575"
    by (simp add: step_eval)
  have down: "opsPerSecond (Decrease
      \<lparr>opsPerSecond = 6755399441055749, tokenChan = \<lparr>chan_cap = 20, chan_len = 0\<rparr>, oversupply = 0\<rparr>) =
      6755399441055749 - 675539944105575"
    by (simp add: Decrease_def Let_def step wrap64_def)
  have "max 1 ((6755399441055749 :: int) div 10) = 675539944105574" by simp
  with new up down show ?thesis by (intro conjI)
qed

subsection \<open>Throttle: the token queue and the refill cycle\<close>

lemma tokenChan_call: "tokenChan (call c t) = tokenChan t"
  by (cases c) (simp_all add: Increase_def Decrease_def Let_def)

lemma queue_within_interfere: "queue_within n t \<Longrightarrow> queue_within n (interfere x t)"
  by (cases x) (auto simp add: queue_within_def tokenChan_call)

lemma queue_within_interferes: "queue_within n t \<Longrightarrow> queue_within n (interferes xs t)"
  unfolding interferes_def
  by (induction xs arbitrary: t) (simp_all add: queue_within_interfere)

lemma queue_within_send: "queue_within n t \<Longrightarrow> queue_within n (send_token t)"
  by (simp add: queue_within_def send_token_def)

lemma queue_within_refill:
  "queue_within n t \<Longrightarrow> queue_within n (fst (refill t i tc p sched))"
proof (induction sched arbitrary: t i tc p)
  case Nil
  then show ?case by simp
next
  case (Cons it sched)
  obtain pre sel where it: "it = (pre, sel)" by (cases it)
  have t1: "queue_within n (interferes pre t)"
    using Cons.prems by (rule queue_within_interferes)
  then have "queue_within n (send_token (interferes pre t))"
    by (rule queue_within_send)
  then have "queue_within n
      (fst (refill (send_token (interferes pre t)) (i + 1) (tc - 1) (Suc p) sched))"
    by (rule Cons.IH)
  then show ?case
    using t1 by (cases sel) (simp_all add: it Let_def)
qed

lemma queue_within_cycle: "queue_within n t \<Longrightarrow> queue_within n (fst (refill_cycle t sched))"
proof -
  assume "queue_within n t"
  then have "queue_within n (fst (refill t 0 (opsPerSecond t) 0 sched))"
    by (rule queue_within_refill)
  then show ?thesis
    by (cases "refill t 0 (opsPerSecond t) 0 sched")
       (simp add: refill_cycle_def Let_def queue_within_def)
qed

lemma queue_within_run_events:
  "queue_within n t \<Longrightarrow> queue_within n (run_events running t evs)"
  by (induction running t evs rule: run_events.induct)
     (simp_all add: queue_within_interfere queue_within_cycle)

lemma queue_within_lifetime: "queue_within n t \<Longrightarrow> queue_within n (lifetime t evs)"
  unfolding lifetime_def by (rule queue_within_run_events)

text \<open>
  C5, as amended. The capacity of the token queue is the rate that \<^verbatim>\<open>NewThrottle\<close> was
  given, at every point of the life of the throttle: \<^verbatim>\<open>Increase\<close> and \<^verbatim>\<open>Decrease\<close>
  change the rate and never the queue. The number of tokens in the queue never exceeds
  that capacity, at the start of a refill cycle as at any other point.
\<close>

theorem token_queue_capacity_fixed:
  assumes "NewThrottle ops = Inr t"
  shows "int (chan_cap (tokenChan (lifetime t evs))) = ops \<and>
         int (chan_len (tokenChan (lifetime t evs))) \<le> ops"
proof -
  have ops: "0 \<le> ops" and t: "t = \<lparr>opsPerSecond = ops,
      tokenChan = \<lparr>chan_cap = nat ops, chan_len = 0\<rparr>, oversupply = 0\<rparr>"
    using assms by (simp_all add: NewThrottle_def split: if_splits)
  have "queue_within (nat ops) t" by (simp add: t queue_within_def)
  then have "queue_within (nat ops) (lifetime t evs)" by (rule queue_within_lifetime)
  then have "chan_cap (tokenChan (lifetime t evs)) = nat ops"
    and "chan_len (tokenChan (lifetime t evs)) \<le> nat ops"
    by (simp_all add: queue_within_def)
  then show ?thesis using ops by linarith
qed


lemma rate_Increase_1:
  "Increase \<lparr>opsPerSecond = 1, tokenChan = ch, oversupply = ov\<rparr> =
     \<lparr>opsPerSecond = 2, tokenChan = ch, oversupply = ov\<rparr>"
  by (simp add: Increase_def Let_def step_of_small wrap64_def)

lemma rate_Increase_2:
  "Increase \<lparr>opsPerSecond = 2, tokenChan = ch, oversupply = ov\<rparr> =
     \<lparr>opsPerSecond = 3, tokenChan = ch, oversupply = ov\<rparr>"
  by (simp add: Increase_def Let_def step_of_small wrap64_def)

lemma rate_Decrease_2:
  "Decrease \<lparr>opsPerSecond = 2, tokenChan = ch, oversupply = ov\<rparr> =
     \<lparr>opsPerSecond = 1, tokenChan = ch, oversupply = ov\<rparr>"
  by (simp add: Decrease_def Let_def step_of_small wrap64_def)

theorem token_queue_capacity_fixed_witness:
  "NewThrottle 10 =
     Inr \<lparr>opsPerSecond = 10, tokenChan = \<lparr>chan_cap = 10, chan_len = 0\<rparr>, oversupply = 0\<rparr> \<and>
   int (chan_cap (tokenChan (lifetime
     \<lparr>opsPerSecond = 10, tokenChan = \<lparr>chan_cap = 10, chan_len = 0\<rparr>, oversupply = 0\<rparr>
     [Other (Rate CallIncrease), TickerC [([], Sent), ([], Sent)]]))) = 10 \<and>
   int (chan_len (tokenChan (lifetime
     \<lparr>opsPerSecond = 10, tokenChan = \<lparr>chan_cap = 10, chan_len = 0\<rparr>, oversupply = 0\<rparr>
     [Other (Rate CallIncrease), TickerC [([], Sent), ([], Sent)]]))) \<le> 10"
proof -
  have new: "NewThrottle 10 =
      Inr \<lparr>opsPerSecond = 10, tokenChan = \<lparr>chan_cap = 10, chan_len = 0\<rparr>, oversupply = 0\<rparr>"
    by (simp add: NewThrottle_def)
  show ?thesis
    using new token_queue_capacity_fixed
      [OF new, of "[Other (Rate CallIncrease), TickerC [([], Sent), ([], Sent)]]"]
    by simp
qed

theorem token_queue_capacity_counterexample:
  "NewThrottle 2 =
     Inr \<lparr>opsPerSecond = 2, tokenChan = \<lparr>chan_cap = 2, chan_len = 0\<rparr>, oversupply = 0\<rparr> \<and>
   lifetime \<lparr>opsPerSecond = 2, tokenChan = \<lparr>chan_cap = 2, chan_len = 0\<rparr>, oversupply = 0\<rparr>
     [Other (Rate CallIncrease)] =
     \<lparr>opsPerSecond = 3, tokenChan = \<lparr>chan_cap = 2, chan_len = 0\<rparr>, oversupply = 0\<rparr> \<and>
   lifetime \<lparr>opsPerSecond = 2, tokenChan = \<lparr>chan_cap = 2, chan_len = 0\<rparr>, oversupply = 0\<rparr>
     [TickerC [([], Sent), ([], Sent)], Other (Rate CallDecrease)] =
     \<lparr>opsPerSecond = 1, tokenChan = \<lparr>chan_cap = 2, chan_len = 2\<rparr>, oversupply = 0\<rparr>"
  by (simp add: NewThrottle_def lifetime_def rate_Increase_2 rate_Decrease_2
      refill_cycle_def interferes_def send_token_def Let_def)

lemma refill_tokenCount:
  "refill t i tc p sched = (t', tc', p') \<Longrightarrow> p \<le> p' \<and> tc' = tc - int (p' - p)"
proof (induction sched arbitrary: t i tc p)
  case Nil
  then show ?case by simp
next
  case (Cons it sched)
  obtain pre sel where it: "it = (pre, sel)" by (cases it)
  show ?case
  proof (cases "i < opsPerSecond (interferes pre t) \<and> sel = Sent")
    case True
    then have "refill (send_token (interferes pre t)) (i + 1) (tc - 1) (Suc p) sched = (t', tc', p')"
      using Cons.prems by (simp add: it Let_def)
    then have "Suc p \<le> p' \<and> tc' = tc - 1 - int (p' - Suc p)" by (rule Cons.IH)
    then show ?thesis by auto
  next
    case False
    then have "p' = p \<and> tc' = tc"
      using Cons.prems by (cases sel) (auto simp add: it Let_def split: if_splits)
    then show ?thesis by simp
  qed
qed

lemma cycle_oversupply:
  "oversupply (fst (refill_cycle t sched)) = opsPerSecond t - int (snd (refill_cycle t sched))"
proof -
  obtain t' tc' p' where r: "refill t 0 (opsPerSecond t) 0 sched = (t', tc', p')"
    by (cases "refill t 0 (opsPerSecond t) 0 sched")
  then have "tc' = opsPerSecond t - int (p' - 0)" using refill_tokenCount by blast
  then show ?thesis by (simp add: refill_cycle_def Let_def r)
qed

lemma opsPerSecond_interferes:
  "list_all no_rate_call xs \<Longrightarrow> opsPerSecond (interferes xs t) = opsPerSecond t"
  unfolding interferes_def
proof (induction xs arbitrary: t)
  case Nil
  then show ?case by simp
next
  case (Cons x xs)
  then show ?case by (cases x) simp_all
qed

lemma opsPerSecond_send: "opsPerSecond (send_token t) = opsPerSecond t"
  by (simp add: send_token_def)

lemma refill_untouched:
  assumes "rate_untouched sched" and "refill t i tc p sched = (t', tc', p')"
  shows "p' = p + length (takeWhile (\<lambda>it. snd it = Sent) (take (nat (opsPerSecond t - i)) sched)) \<and>
         opsPerSecond t' = opsPerSecond t"
  using assms
proof (induction sched arbitrary: t i tc p)
  case Nil
  then show ?case by simp
next
  case (Cons it sched)
  obtain pre sel where it: "it = (pre, sel)" by (cases it)
  have pre: "list_all no_rate_call pre" and rest: "rate_untouched sched"
    using Cons.prems(1) by (simp_all add: rate_untouched_def it)
  have ops: "opsPerSecond (interferes pre t) = opsPerSecond t"
    using pre by (rule opsPerSecond_interferes)
  show ?case
  proof (cases "i < opsPerSecond t")
    case False
    then have "nat (opsPerSecond t - i) = 0" by simp
    moreover have "p' = p \<and> t' = interferes pre t"
      using Cons.prems(2) False by (auto simp add: it Let_def ops)
    ultimately show ?thesis by (simp add: ops)
  next
    case True
    then have n: "nat (opsPerSecond t - i) = Suc (nat (opsPerSecond t - (i + 1)))" by simp
    show ?thesis
    proof (cases sel)
      case TimedOut
      then have "p' = p \<and> t' = interferes pre t"
        using Cons.prems(2) True by (auto simp add: it Let_def ops)
      then show ?thesis using TimedOut by (simp add: n it ops)
    next
      case Sent
      then have "refill (send_token (interferes pre t)) (i + 1) (tc - 1) (Suc p) sched = (t', tc', p')"
        using Cons.prems(2) True by (simp add: it Let_def ops)
      then have "p' = Suc p + length (takeWhile (\<lambda>it. snd it = Sent)
            (take (nat (opsPerSecond (send_token (interferes pre t)) - (i + 1))) sched)) \<and>
          opsPerSecond t' = opsPerSecond (send_token (interferes pre t))"
        using rest by (intro Cons.IH)
      then show ?thesis using Sent by (simp add: n it ops opsPerSecond_send)
    qed
  qed
qed

lemma cycle_untouched:
  assumes "rate_untouched sched"
  shows "snd (refill_cycle t sched) =
           length (takeWhile (\<lambda>it. snd it = Sent) (take (nat (opsPerSecond t)) sched)) \<and>
         opsPerSecond (fst (refill_cycle t sched)) = opsPerSecond t"
proof -
  obtain t' tc' p' where r: "refill t 0 (opsPerSecond t) 0 sched = (t', tc', p')"
    by (cases "refill t 0 (opsPerSecond t) 0 sched")
  from refill_untouched [OF assms r] show ?thesis
    by (simp add: refill_cycle_def Let_def r)
qed


lemma call_oversupply: "call c (t\<lparr>oversupply := x\<rparr>) = (call c t)\<lparr>oversupply := x\<rparr>"
  by (cases c) (simp_all add: Increase_def Decrease_def Let_def)

lemma interfere_oversupply:
  "interfere y (t\<lparr>oversupply := x\<rparr>) = (interfere y t)\<lparr>oversupply := x\<rparr>"
  by (cases y) (simp_all add: call_oversupply)

lemma interferes_oversupply:
  "interferes ys (t\<lparr>oversupply := x\<rparr>) = (interferes ys t)\<lparr>oversupply := x\<rparr>"
  unfolding interferes_def
  by (induction ys arbitrary: t) (simp_all add: interfere_oversupply)

lemma send_token_oversupply:
  "send_token (t\<lparr>oversupply := x\<rparr>) = (send_token t)\<lparr>oversupply := x\<rparr>"
  by (simp add: send_token_def)

lemma refill_oversupply:
  "refill (t\<lparr>oversupply := x\<rparr>) i tc p sched =
     (case refill t i tc p sched of (t', rest) \<Rightarrow> (t'\<lparr>oversupply := x\<rparr>, rest))"
proof (induction sched arbitrary: t i tc p)
  case Nil
  then show ?case by simp
next
  case (Cons it sched)
  obtain pre sel where it: "it = (pre, sel)" by (cases it)
  show ?case
    by (cases sel)
       (simp_all add: it Let_def interferes_oversupply send_token_oversupply Cons.IH)
qed

lemma cycle_forgets_oversupply: "refill_cycle (t\<lparr>oversupply := x\<rparr>) sched = refill_cycle t sched"
  by (cases "refill t 0 (opsPerSecond t) 0 sched")
     (simp add: refill_cycle_def Let_def refill_oversupply)

text \<open>
  C4, as amended. A refill cycle reads the rate \<open>R\<close> at its start. At its end
  \<open>oversupply\<close> is \<open>R\<close> minus the number of tokens pushed in the cycle, whatever happens
  during the cycle; the cycle does not depend on the oversupply of the cycle before, so
  nothing is carried over. When no call of \<^verbatim>\<open>Increase\<close> or \<^verbatim>\<open>Decrease\<close> takes effect
  during the cycle, the loop pushes one token per iteration until \<open>R\<close> tokens are pushed
  or the timeout is taken: the number pushed is the number of sends before the first
  timeout among the first \<open>R\<close> iterations, at most \<open>R\<close>, and \<open>R\<close> when no timeout is
  taken (then \<open>oversupply\<close> is 0).
\<close>

theorem refill_cycle_pushes:
  "oversupply (fst (refill_cycle t sched)) = opsPerSecond t - int (snd (refill_cycle t sched)) \<and>
   refill_cycle (t\<lparr>oversupply := x\<rparr>) sched = refill_cycle t sched \<and>
   (rate_untouched sched \<longrightarrow>
      snd (refill_cycle t sched) =
        length (takeWhile (\<lambda>it. snd it = Sent) (take (nat (opsPerSecond t)) sched)) \<and>
      int (snd (refill_cycle t sched)) \<le> max 0 (opsPerSecond t) \<and>
      opsPerSecond (fst (refill_cycle t sched)) = opsPerSecond t) \<and>
   (rate_untouched sched \<and> 0 \<le> opsPerSecond t \<and> nat (opsPerSecond t) \<le> length sched \<and>
    list_all (\<lambda>it. snd it = Sent) (take (nat (opsPerSecond t)) sched) \<longrightarrow>
      int (snd (refill_cycle t sched)) = opsPerSecond t \<and>
      oversupply (fst (refill_cycle t sched)) = 0)"
proof (intro conjI impI)
  show over: "oversupply (fst (refill_cycle t sched)) =
      opsPerSecond t - int (snd (refill_cycle t sched))"
    by (rule cycle_oversupply)
  show "refill_cycle (t\<lparr>oversupply := x\<rparr>) sched = refill_cycle t sched"
    by (rule cycle_forgets_oversupply)
  {
    assume u: "rate_untouched sched"
    show n: "snd (refill_cycle t sched) =
        length (takeWhile (\<lambda>it. snd it = Sent) (take (nat (opsPerSecond t)) sched))"
      using cycle_untouched [OF u] by simp
    have "length (takeWhile (\<lambda>it. snd it = Sent) (take (nat (opsPerSecond t)) sched))
        \<le> length (take (nat (opsPerSecond t)) sched)"
      by (rule length_takeWhile_le)
    then have "snd (refill_cycle t sched) \<le> nat (opsPerSecond t)"
      by (simp add: n)
    then show "int (snd (refill_cycle t sched)) \<le> max 0 (opsPerSecond t)"
      by linarith
    show "opsPerSecond (fst (refill_cycle t sched)) = opsPerSecond t"
      using cycle_untouched [OF u] by simp
  }
  {
    assume a: "rate_untouched sched \<and> 0 \<le> opsPerSecond t \<and> nat (opsPerSecond t) \<le> length sched \<and>
      list_all (\<lambda>it. snd it = Sent) (take (nat (opsPerSecond t)) sched)"
    then have "takeWhile (\<lambda>it. snd it = Sent) (take (nat (opsPerSecond t)) sched) =
        take (nat (opsPerSecond t)) sched"
      by (simp add: takeWhile_eq_all_conv list_all_iff)
    then have "length (takeWhile (\<lambda>it. snd it = Sent) (take (nat (opsPerSecond t)) sched)) =
        length (take (nat (opsPerSecond t)) sched)"
      by (rule arg_cong)
    moreover have "length (take (nat (opsPerSecond t)) sched) = nat (opsPerSecond t)"
      using a by simp
    ultimately have "length (takeWhile (\<lambda>it. snd it = Sent) (take (nat (opsPerSecond t)) sched)) =
        nat (opsPerSecond t)"
      by (rule trans)
    moreover have "snd (refill_cycle t sched) =
        length (takeWhile (\<lambda>it. snd it = Sent) (take (nat (opsPerSecond t)) sched))"
      using a cycle_untouched [of sched t] by blast
    ultimately have "snd (refill_cycle t sched) = nat (opsPerSecond t)"
      by (simp only:)
    then show all: "int (snd (refill_cycle t sched)) = opsPerSecond t"
      using a by simp
    show "oversupply (fst (refill_cycle t sched)) = 0"
      by (simp only: over all)
  }
qed


theorem refill_cycle_pushes_witness:
  "rate_untouched [([], Sent), ([WorkerReceives], Sent), ([], TimedOut), ([], Sent)] \<and>
   refill_cycle \<lparr>opsPerSecond = 3, tokenChan = \<lparr>chan_cap = 3, chan_len = 0\<rparr>, oversupply = 7\<rparr>
     [([], Sent), ([WorkerReceives], Sent), ([], TimedOut), ([], Sent)] =
     (\<lparr>opsPerSecond = 3, tokenChan = \<lparr>chan_cap = 3, chan_len = 1\<rparr>, oversupply = 1\<rparr>, 2) \<and>
   rate_untouched [([], Sent), ([], Sent), ([], Sent)] \<and>
   list_all (\<lambda>it. snd it = Sent) (take 2 [([], Sent), ([], Sent), ([], Sent)]) \<and>
   int (snd (refill_cycle \<lparr>opsPerSecond = 2, tokenChan = \<lparr>chan_cap = 2, chan_len = 0\<rparr>, oversupply = 0\<rparr>
     [([], Sent), ([], Sent), ([], Sent)])) = 2 \<and>
   oversupply (fst (refill_cycle \<lparr>opsPerSecond = 2, tokenChan = \<lparr>chan_cap = 2, chan_len = 0\<rparr>, oversupply = 0\<rparr>
     [([], Sent), ([], Sent), ([], Sent)])) = 0"
proof -
  let ?t = "\<lparr>opsPerSecond = 2, tokenChan = \<lparr>chan_cap = 2, chan_len = 0\<rparr>, oversupply = 0\<rparr>"
  let ?s = "[([], Sent), ([], Sent), ([], Sent)] :: (interference list \<times> select_case) list"
  have u: "rate_untouched ?s" by (simp add: rate_untouched_def)
  have all: "list_all (\<lambda>it. snd it = Sent) (take 2 ?s)" by (simp add: take_Suc_conv_app_nth numeral_2_eq_2)
  have hyp: "rate_untouched ?s \<and> 0 \<le> opsPerSecond ?t \<and> nat (opsPerSecond ?t) \<le> length ?s \<and>
      list_all (\<lambda>it. snd it = Sent) (take (nat (opsPerSecond ?t)) ?s)"
    using u all by simp
  have r: "int (snd (refill_cycle ?t ?s)) = 2 \<and> oversupply (fst (refill_cycle ?t ?s)) = 0"
    using hyp refill_cycle_pushes [of ?t ?s 0] by simp
  have e: "refill_cycle \<lparr>opsPerSecond = 3, tokenChan = \<lparr>chan_cap = 3, chan_len = 0\<rparr>, oversupply = 7\<rparr>
     [([], Sent), ([WorkerReceives], Sent), ([], TimedOut), ([], Sent)] =
     (\<lparr>opsPerSecond = 3, tokenChan = \<lparr>chan_cap = 3, chan_len = 1\<rparr>, oversupply = 1\<rparr>, 2)"
    by (simp add: refill_cycle_def interferes_def send_token_def Let_def)
  have u': "rate_untouched [([], Sent), ([WorkerReceives], Sent), ([], TimedOut), ([], Sent)]"
    by (simp add: rate_untouched_def)
  show ?thesis using u u' all r e by simp
qed

theorem refill_cycle_rate_change_counterexample:
  "refill_cycle \<lparr>opsPerSecond = 1, tokenChan = \<lparr>chan_cap = 1, chan_len = 0\<rparr>, oversupply = 0\<rparr>
     [([], Sent), ([WorkerReceives, Rate CallIncrease], Sent)] =
     (\<lparr>opsPerSecond = 2, tokenChan = \<lparr>chan_cap = 1, chan_len = 1\<rparr>, oversupply = - 1\<rparr>, 2)"
  by (simp add: refill_cycle_def interferes_def send_token_def Let_def rate_Increase_1)

end
